theory Spec2Isabelle
  imports Complex_Main "HOL-Library.Word"
begin

unbundle bit_operations_syntax

section \<open>Gaussian-width focus routines of atGaussianWidth.c\<close>

text \<open>
  The file holds three public routines and one static helper:
  \<^item> \<open>atSetFSigma\<close> fills the static filter arrays for a width parameter sigma;
  \<^item> \<open>lgausmom\<close> sums Gaussian-weighted moments around an integer pixel;
  \<^item> \<open>atFindFocMom\<close> looks for the maximum of the smoothed image in a 3x3 grid and
    interpolates;
  \<^item> \<open>atSigmaFind\<close> iterates on sigma.

  Conventions of the model.
  \<^item> A C \<open>float\<close> or \<open>double\<close> value is the real number it stands for. Every
    floating-point operation gives the exact result rounded to the type in which C
    performs it (IEEE 754 single and double precision, round to nearest, ties to
    even, gradual underflow; each operation is rounded once, to its own type): the
    roundings are the functions \<open>f32\<close> and \<open>f64\<close> below. An \<open>int\<close> or a \<open>float\<close>
    that meets a \<open>double\<close> operand is converted to \<open>double\<close> first, which changes no
    value. Overflow to infinity, division by zero and NaN are not modelled: the
    model is the code on the runs in which no floating-point result leaves the
    range of its type. In \<open>lgausmom\<close>, \<open>atFindFocMom\<close> and \<open>atSigmaFind\<close> every result
    stays in range and no divisor is zero; in \<open>atSetFSigma\<close> the quotient
    \<open>0.5/(sigma*sigma)\<close> leaves the range of \<open>float\<close> for \<open>sigma\<close> below \<open>3.8e-20\<close>.
    \<open>exp\<close> and \<open>sqrt\<close> of the C library are taken as the real functions rounded to
    \<open>double\<close>. The conversion of a floating value to an integer type truncates
    towards zero, as in C.
  \<^item> The accumulators of \<open>lgausmom\<close> (\<open>int\<close>, with \<open>sky\<close>) are 32-bit words: \<open>+\<close>,
    \<open>-\<close>, \<open>*\<close> wrap around, \<open>>>\<close> is the arithmetic shift, comparisons are signed.
    Pixels are unsigned 16-bit words (\<open>U16\<close>), filter taps signed 16-bit words
    (\<open>short int\<close>); both are promoted to 32 bits before use.
  \<^item> Coordinates, sizes and counters (\<open>x\<close>, \<open>y\<close>, \<open>xsz\<close>, \<open>ysz\<close>, \<open>ret\<close>) are
    integers; loop indices into the filter arrays and the filter length \<open>sig_ncut\<close>,
    which are never negative, are naturals. In C they are 32-bit \<open>int\<close>s: the
    model is the code for arguments in that range, as long as the sums and
    differences that the code forms of them (\<open>ncut+y\<close>, \<open>y+1\<close>, \<open>xsz-ncut-1\<close>, ...)
    stay in that range too. A theorem about a test on such a sum carries the
    hypothesis that keeps it in range.
  \<^item> The file-level statics \<open>fgarray\<close>, \<open>xfgarray\<close>, \<open>x2fgarray\<close>, \<open>sig_ncut\<close> and
    \<open>sigmagen\<close> form one record that is passed in and returned.
  \<^item> The image \<open>const U16 **p\<close> is a list of rows. A read outside it is undefined
    behaviour in C; the model stops there with the outcome \<open>MemFault\<close>. A failed
    \<open>shAssert\<close> stops with \<open>AssertFail\<close>.
\<close>

subsection \<open>Integer types\<close>

type_synonym i32 = "32 word"
type_synonym i16 = "16 word"
type_synonym u16 = "16 word"
type_synonym image = "u16 list list"

subsection \<open>Floating-point values\<close>

text \<open>
  \<open>rne q\<close> is the integer nearest to \<open>q\<close>, the even one of the two when \<open>q\<close> lies
  half-way. \<open>ilog2 x\<close> is the binary exponent of a positive \<open>x\<close>:
  \<open>2^(ilog2 x) \<le> x < 2^(ilog2 x + 1)\<close>.
\<close>

definition rne :: "real \<Rightarrow> int" where
  "rne q = (let f = \<lfloor>q\<rfloor>; d = q - of_int f in
     if d < 1 / 2 then f else if d > 1 / 2 then f + 1 else if even f then f else f + 1)"

function ilog2 :: "real \<Rightarrow> int" where
  "ilog2 x = (if x \<le> 0 then 0 else if x < 1 then ilog2 (2 * x) - 1
     else if 2 \<le> x then ilog2 (x / 2) + 1 else 0)"
  by pat_completeness auto
termination
proof (relation "measure (\<lambda>x. if x \<le> 0 then 0 else if x < 1 then 1 + nat \<lceil>- log 2 x\<rceil> else nat \<lfloor>log 2 x\<rfloor>)", goal_cases)
  case 1
  then show ?case by simp
next
  case (2 x)
  then have x: "0 < x" "x < 1" by simp_all
  show ?case
  proof (cases "2 * x < 1")
    case True
    have "log 2 (2 * x) = 1 + log 2 x" using x by (simp add: log_mult)
    moreover have "log 2 (2 * x) < 0" using True x by simp
    ultimately show ?thesis using x True by (simp add: ceiling_diff_one) linarith
  next
    case False
    then have "log 2 (2 * x) < 1" using x by (simp add: log_less_iff)
    then have "\<lfloor>log 2 (2 * x)\<rfloor> \<le> 0" by linarith
    then show ?thesis using x False by simp
  qed
next
  case (3 x)
  then have x: "2 \<le> x" by simp
  have "log 2 (x / 2) = log 2 x - 1" using x by (simp add: log_divide)
  moreover have "1 \<le> log 2 x" using x by (simp add: le_log_iff)
  ultimately show ?case using x by simp
qed

declare ilog2.simps [simp del]

definition pow2 :: "int \<Rightarrow> real" where
  "pow2 e = (if 0 \<le> e then 2 ^ nat e else 1 / 2 ^ nat (- e))"

text \<open>
  Rounding to a binary format with \<open>p\<close> significant bits and least exponent \<open>emin\<close>:
  the result is the multiple of the unit in the last place, \<open>2^e\<close>, that is nearest
  to \<open>x\<close>, where \<open>e = ilog2 |x| - p + 1\<close>, or \<open>emin\<close> in the subnormal range.
\<close>

definition round_to :: "nat \<Rightarrow> int \<Rightarrow> real \<Rightarrow> real" where
  "round_to p emin x =
     (if x = 0 then 0
      else (let e = max (ilog2 \<bar>x\<bar> - int p + 1) emin; u = pow2 e
            in real_of_int (rne (x / u)) * u))"

text \<open>The value as a \<open>float\<close> (24 bits, down to \<open>2^-149\<close>) and as a \<open>double\<close> (53 bits,
  down to \<open>2^-1074\<close>).\<close>

definition f32 :: "real \<Rightarrow> real" where
  "f32 = round_to 24 (- 149)"

definition f64 :: "real \<Rightarrow> real" where
  "f64 = round_to 53 (- 1074)"

text \<open>\<open>exp\<close> and \<open>sqrt\<close> of the C library, on \<open>double\<close>.\<close>

definition c_exp :: "real \<Rightarrow> real" where
  "c_exp x = f64 (exp x)"

definition c_sqrt :: "real \<Rightarrow> real" where
  "c_sqrt x = f64 (sqrt x)"

subsection \<open>Data\<close>

text \<open>
  Modelled from the spec: the struct \<open>GAUSSMOM\<close> is declared in atGaussianWidth.h,
  which is not among the sources. The seven fields are the ones atGaussianWidth.c
  reads and writes; the spec's GaussianMoments record lists the same seven. They
  are taken to be of type \<open>float\<close>, like every local variable of atGaussianWidth.c
  that they are copied from and to.
\<close>

record GAUSSMOM =
  g_xmom :: real
  g_ymom :: real
  g_pmom :: real
  g_mmom :: real
  g_filval :: real
  g_xf :: real
  g_yf :: real

text \<open>The static filter arrays with \<open>sig_ncut\<close> and \<open>sigmagen\<close>.\<close>

record kernel =
  fgarray :: "i16 list"
  xfgarray :: "i16 list"
  x2fgarray :: "i16 list"
  sig_ncut :: nat
  sigmagen :: real

text \<open>How a call ends: by returning, by a failed assertion or by a wild read.\<close>

datatype 'a outcome = AssertFail | MemFault | Return 'a

definition SIZFIL :: nat where
  "SIZFIL = 50"

definition DXF :: real where
  "DXF = 0.5"

definition DYF :: real where
  "DYF = 0.5"

text \<open>The constants \<open>1E-10\<close>, \<open>1.2\<close> and \<open>1.e-2\<close> are the \<open>double\<close>s nearest to them.\<close>

definition EPS :: real where
  "EPS = f64 (1 / 10 ^ 10)"

definition FINDERR :: int where
  "FINDERR = 15"

definition SIGGUESS :: real where
  "SIGGUESS = f64 1.2"

definition SIGITERAT :: nat where
  "SIGITERAT = 10"

definition SIGERR :: real where
  "SIGERR = f64 (1 / 100)"

text \<open>The statics as the C file initialises them: zeroed arrays, \<open>sig_ncut = 0\<close>,
  \<open>sigmagen = 0.\<close>.\<close>

definition kernel_init :: kernel where
  "kernel_init = \<lparr>fgarray = replicate SIZFIL 0, xfgarray = replicate SIZFIL 0,
     x2fgarray = replicate SIZFIL 0, sig_ncut = 0, sigmagen = 0\<rparr>"

subsection \<open>Conversions\<close>

text \<open>C's conversion of a floating value to an integer drops the fraction.\<close>

definition c_trunc :: "real \<Rightarrow> int" where
  "c_trunc r = (if 0 \<le> r then \<lfloor>r\<rfloor> else \<lceil>r\<rceil>)"

definition to_short :: "real \<Rightarrow> i16" where
  "to_short r = word_of_int (c_trunc r)"

text \<open>An \<open>int\<close> converted to \<open>float\<close>: above \<open>2^24\<close> the value is rounded.\<close>

definition to_float :: "i32 \<Rightarrow> real" where
  "to_float w = f32 (real_of_int (sint w))"

text \<open>A filter tap promoted to \<open>int\<close>, a pixel promoted to \<open>int\<close>.\<close>

definition tap :: "i16 list \<Rightarrow> nat \<Rightarrow> i32" where
  "tap a k = scast (a ! k)"

definition pixval :: "u16 \<Rightarrow> i32" where
  "pixval v = ucast v"

subsection \<open>atSetFSigma\<close>

text \<open>
  The body of \<open>for(i=0;i<ncut;i++)\<close>. The local \<open>sum\<close> of the C code is written in the
  loop and never read; it is left out. \<open>sig2inv\<close>, \<open>siginv\<close>, \<open>edge\<close>, \<open>isig2\<close> and
  \<open>gau\<close> are \<open>float\<close>s: \<open>isig2*isig2*sig2inv\<close> and \<open>i*gau*siginv\<close> are computed in
  \<open>float\<close>, \<open>512.*exp(-isig2) - edge + 0.5\<close> and \<open>2.*gau*isig2\<close> in \<open>double\<close>.
\<close>

definition setf_body :: "real \<Rightarrow> real \<Rightarrow> real \<Rightarrow> nat \<Rightarrow> kernel \<Rightarrow> kernel" where
  "setf_body sig2inv siginv edge i K =
     (let isig2 = f32 (f32 (f32 (real i) * f32 (real i)) * sig2inv);
          gau = f32 (f64 (f64 (f64 (512 * c_exp (- isig2)) - edge) + 0.5));
          K1 = K\<lparr>fgarray := (fgarray K)[i := to_short gau]\<rparr>;
          K2 = K1\<lparr>xfgarray := (xfgarray K1)[i := to_short (f32 (f32 (f32 (real i) * gau) * siginv))]\<rparr>;
          K3 = K2\<lparr>x2fgarray := (x2fgarray K2)[i := to_short (f64 (f64 (2 * gau) * isig2))]\<rparr>
      in if x2fgarray K3 ! i = 0 \<and> i \<noteq> 0 then K3\<lparr>sig_ncut := i\<rparr> else K3)"

function setf_loop :: "real \<Rightarrow> real \<Rightarrow> real \<Rightarrow> nat \<Rightarrow> nat \<Rightarrow> kernel \<Rightarrow> kernel" where
  "setf_loop sig2inv siginv edge ncut i K =
     (if i < ncut then
        setf_loop sig2inv siginv edge ncut (Suc i) (setf_body sig2inv siginv edge i K)
      else K)"
  by pat_completeness auto
termination
  by (relation "measure (\<lambda>(sig2inv, siginv, edge, ncut, i, K). ncut - i)") auto

declare setf_loop.simps [simp del]

text \<open>\<open>for(i=ncut;i<SIZFIL;i++) fgarray[i] = 0;\<close>\<close>

function zero_loop :: "nat \<Rightarrow> i16 list \<Rightarrow> i16 list" where
  "zero_loop i a = (if i < SIZFIL then zero_loop (Suc i) (a[i := 0]) else a)"
  by pat_completeness auto
termination
  by (relation "measure (\<lambda>(i, a). SIZFIL - i)") auto

declare zero_loop.simps [simp del]

text \<open>
  \<open>sigma\<close> is a \<open>double\<close>; everything up to the conversion to \<open>int\<close> or \<open>float\<close> is
  computed in \<open>double\<close>.
\<close>

definition atSetFSigma :: "real \<Rightarrow> kernel \<Rightarrow> int \<times> kernel" where
  "atSetFSigma sigma K =
     (if sigma \<le> 0 \<or> sigma > 12 then (- 1, K)
      else if sigma = sigmagen K then (0, K)
      else
        (let K1 = K\<lparr>sigmagen := sigma\<rparr>;
             ncut = nat (c_trunc (f64 (f64 (4 * sigma) + 1.5)));
             sig2inv = f32 (f64 (0.5 / f64 (sigma * sigma)));
             siginv = f32 (f64 (1 / sigma));
             edge = f32 (f64 (512 * c_exp (f64 (- (real (ncut * ncut)) * sig2inv))));
             K2 = K1\<lparr>sig_ncut := ncut\<rparr>;
             K3 = setf_loop sig2inv siginv edge ncut 0 K2;
             K4 = K3\<lparr>fgarray := zero_loop ncut (fgarray K3)\<rparr>
         in (0, K4)))"

subsection \<open>lgausmom\<close>

text \<open>
  A read of \<open>p[r][c]\<close>. Outside the rows of the image, or outside row \<open>r\<close>, there is
  nothing to read.
\<close>

definition pix :: "image \<Rightarrow> int \<Rightarrow> int \<Rightarrow> u16 option" where
  "pix p r c =
     (if 0 \<le> r \<and> r < int (length p) \<and> 0 \<le> c \<and> c < int (length (p ! nat r))
      then Some (p ! nat r ! nat c) else None)"

text \<open>
  The inner \<open>while(n)\<close> of the central line (\<open>i == 0\<close>). The pointers \<open>lptrpp\<close> and
  \<open>lptrpm\<close> start at column \<open>x\<close> of row \<open>y\<close> and move one column right and left before
  each read, and \<open>n\<close> starts at \<open>ncut-1\<close>: at the filter index \<open>k = ncut-n\<close> they are at
  the columns \<open>x+k\<close> and \<open>x-k\<close>. The first argument of the recursion is \<open>n\<close>.
\<close>

fun row0_loop :: "kernel \<Rightarrow> image \<Rightarrow> int \<Rightarrow> int \<Rightarrow> i32 \<Rightarrow> nat \<Rightarrow> nat
    \<Rightarrow> i32 \<times> i32 \<times> i32 \<Rightarrow> (i32 \<times> i32 \<times> i32) option" where
  "row0_loop K p x y sky2 ncut 0 acc = Some acc"
| "row0_loop K p x y sky2 ncut (Suc m) (lsum, lxsum, lx2sum) =
     (let k = ncut - Suc m in
      case pix p y (x + int k) of None \<Rightarrow> None
      | Some pp \<Rightarrow>
     (case pix p y (x - int k) of None \<Rightarrow> None
      | Some pm \<Rightarrow>
     (let psum = pixval pp + pixval pm - sky2 in
      row0_loop K p x y sky2 ncut m
        (lsum + psum * tap (fgarray K) k,
         lxsum + (pixval pp - pixval pm - sky2) * tap (xfgarray K) k,
         lx2sum + psum * tap (x2fgarray K) k))))"

text \<open>
  The inner \<open>while(n)\<close> of the other lines: \<open>lptrpp\<close>, \<open>lptrpm\<close> run over row \<open>y+i\<close>,
  \<open>lptrmp\<close>, \<open>lptrmm\<close> over row \<open>y-i\<close>.
\<close>

fun rowi_loop :: "kernel \<Rightarrow> image \<Rightarrow> int \<Rightarrow> int \<Rightarrow> nat \<Rightarrow> i32 \<Rightarrow> nat \<Rightarrow> nat
    \<Rightarrow> i32 \<times> i32 \<times> i32 \<Rightarrow> (i32 \<times> i32 \<times> i32) option" where
  "rowi_loop K p x y i sky4 ncut 0 acc = Some acc"
| "rowi_loop K p x y i sky4 ncut (Suc m) (lsum, lxsum, lx2sum) =
     (let k = ncut - Suc m in
      case pix p (y + int i) (x + int k) of None \<Rightarrow> None
      | Some pp \<Rightarrow>
     (case pix p (y + int i) (x - int k) of None \<Rightarrow> None
      | Some pm \<Rightarrow>
     (case pix p (y - int i) (x + int k) of None \<Rightarrow> None
      | Some mp \<Rightarrow>
     (case pix p (y - int i) (x - int k) of None \<Rightarrow> None
      | Some mm \<Rightarrow>
     (let psum = pixval pp + pixval pm + pixval mp + pixval mm - sky4 in
      rowi_loop K p x y i sky4 ncut m
        (lsum + psum * tap (fgarray K) k,
         lxsum + (pixval pp - pixval pm - pixval mp + pixval mm) * tap (xfgarray K) k,
         lx2sum + psum * tap (x2fgarray K) k))))))"

text \<open>
  One pass of the body of \<open>for(i=0; i< ncut; i++)\<close> up to the overflow test: the three
  per-line sums \<open>lsum\<close>, \<open>lxsum\<close>, \<open>lx2sum\<close>.
\<close>

definition ring :: "kernel \<Rightarrow> image \<Rightarrow> int \<Rightarrow> int \<Rightarrow> i32 \<Rightarrow> nat \<Rightarrow> nat
    \<Rightarrow> (i32 \<times> i32 \<times> i32) option" where
  "ring K p x y sky ncut i =
     (let sky2 = 2 * sky; sky4 = 4 * sky in
      if i = 0 then
        (case pix p y x of None \<Rightarrow> None
         | Some c \<Rightarrow>
             row0_loop K p x y sky2 ncut (ncut - 1)
               ((pixval c - sky) * tap (fgarray K) 0, 0, 0))
      else
        (case pix p (y + int i) x of None \<Rightarrow> None
         | Some a \<Rightarrow>
        (case pix p (y - int i) x of None \<Rightarrow> None
         | Some b \<Rightarrow>
             rowi_loop K p x y i sky4 ncut (ncut - 1)
               ((pixval a + pixval b - sky2) * tap (fgarray K) 0, 0, 0))))"

text \<open>
  The rest of the body: the per-line sums are multiplied by the taps of line \<open>i\<close> and
  added to \<open>sum\<close>, \<open>xysum\<close>, \<open>x2sum\<close>, \<open>y2sum\<close> (in this order in the tuple), shifted by
  8 bits before the product when \<open>lsum > 0xfffff\<close> and after it otherwise.
\<close>

definition accum :: "kernel \<Rightarrow> nat \<Rightarrow> i32 \<times> i32 \<times> i32 \<Rightarrow> i32 \<times> i32 \<times> i32 \<times> i32
    \<Rightarrow> i32 \<times> i32 \<times> i32 \<times> i32" where
  "accum K i l s =
     (case l of (lsum, lxsum, lx2sum) \<Rightarrow>
      case s of (sum0, xysum, x2sum, y2sum) \<Rightarrow>
        if 0xfffff <s lsum then
          (let lsum1 = signed_drop_bit 8 lsum;
               lxsum1 = signed_drop_bit 8 lxsum;
               lx2sum1 = signed_drop_bit 8 lx2sum
           in (sum0 + lsum1 * tap (fgarray K) i,
               xysum + lxsum1 * tap (xfgarray K) i,
               x2sum + lx2sum1 * tap (fgarray K) i,
               y2sum + lsum1 * tap (x2fgarray K) i))
        else
          (sum0 + signed_drop_bit 8 (lsum * tap (fgarray K) i),
           xysum + signed_drop_bit 8 (lxsum * tap (xfgarray K) i),
           x2sum + signed_drop_bit 8 (lx2sum * tap (fgarray K) i),
           y2sum + signed_drop_bit 8 (lsum * tap (x2fgarray K) i)))"

function lg_loop :: "kernel \<Rightarrow> image \<Rightarrow> int \<Rightarrow> int \<Rightarrow> i32 \<Rightarrow> nat \<Rightarrow> nat
    \<Rightarrow> i32 \<times> i32 \<times> i32 \<times> i32 \<Rightarrow> (i32 \<times> i32 \<times> i32 \<times> i32) option" where
  "lg_loop K p x y sky ncut i s =
     (if i < ncut then
        (case ring K p x y sky ncut i of None \<Rightarrow> None
         | Some l \<Rightarrow> lg_loop K p x y sky ncut (Suc i) (accum K i l s))
      else Some s)"
  by pat_completeness auto
termination
  by (relation "measure (\<lambda>(K, p, x, y, sky, ncut, i, s). ncut - i)") auto

declare lg_loop.simps [simp del]

text \<open>
  The places where \<open>lgausmom\<close> returns: the two edge tests (which print a line starting
  with A and with B), the zero integral, and the end. \<open>lg_status\<close> is the value returned
  there.
\<close>

datatype lg_exit = LG_EdgeA | LG_EdgeB | LG_ZeroIntegral | LG_Done

fun lg_status :: "lg_exit \<Rightarrow> int" where
  "lg_status LG_EdgeA = - 1"
| "lg_status LG_EdgeB = - 1"
| "lg_status LG_ZeroIntegral = - 1"
| "lg_status LG_Done = 0"

text \<open>
  The totals after \<open>>> 5\<close> and what is made of them. \<open>fsum\<close> is a \<open>float\<close>. In
  \<open>(double)(2*x2sum - sum)/fsum\<close> the numerator is computed in \<open>int\<close> and converted to
  \<open>double\<close> without loss, the quotient is computed in \<open>double\<close> and rounded to the
  \<open>float\<close> \<open>x2mom\<close>. \<open>lgausmom\<close> is static and its two callers pass the address of
  an array element, so \<open>if(ps)\<close> holds; the model takes the struct and returns it
  with the five fields written.
\<close>

definition lg_final :: "i32 \<times> i32 \<times> i32 \<times> i32 \<Rightarrow> GAUSSMOM \<Rightarrow> lg_exit \<times> GAUSSMOM" where
  "lg_final s ps =
     (case s of (sum0, xysum0, x2sum0, y2sum0) \<Rightarrow>
        (let sum1 = signed_drop_bit 5 sum0;
             x2sum = signed_drop_bit 5 x2sum0;
             y2sum = signed_drop_bit 5 y2sum0;
             xysum = signed_drop_bit 5 xysum0;
             fsum = to_float sum1
         in if fsum = 0 then (LG_ZeroIntegral, ps)
            else
              (let x2mom = f32 (f64 (real_of_int (sint (2 * x2sum - sum1)) / fsum));
                   y2mom = f32 (f64 (real_of_int (sint (2 * y2sum - sum1)) / fsum));
                   pmom = f32 (f64 (real_of_int (sint (x2sum - 2 * xysum + y2sum - sum1)) / fsum));
                   mmom = f32 (f64 (real_of_int (sint (x2sum + 2 * xysum + y2sum - sum1)) / fsum))
               in (LG_Done, ps\<lparr>g_xmom := x2mom, g_ymom := y2mom, g_pmom := pmom,
                     g_mmom := mmom, g_filval := fsum\<rparr>))))"

text \<open>
  The two row tests are \<open>ncut+y > ysz\<close> and \<open>ncut > y+1\<close>, on integers: they are the
  tests of the code when \<open>ncut+y\<close> and \<open>y+1\<close> are in the range of \<open>int\<close>.
\<close>

definition lgausmom :: "kernel \<Rightarrow> image \<Rightarrow> int \<Rightarrow> int \<Rightarrow> int \<Rightarrow> int \<Rightarrow> i32 \<Rightarrow> GAUSSMOM
    \<Rightarrow> (lg_exit \<times> GAUSSMOM) outcome" where
  "lgausmom K p xsz ysz x y sky ps =
     (let ncut = sig_ncut K in
      if sigmagen K = 0 then AssertFail
      else if int ncut + y > ysz then Return (LG_EdgeA, ps)
      else if int ncut > y + 1 then Return (LG_EdgeB, ps)
      else
        (case lg_loop K p x y sky ncut 0 (0, 0, 0, 0) of
           None \<Rightarrow> MemFault
         | Some s \<Rightarrow> Return (lg_final s ps)))"

subsection \<open>atFindFocMom\<close>

datatype ff_exit = FF_TooManyTries | FF_TooCloseToEdge | FF_MomentError | FF_FlatPeak
  | FF_Found int

fun ff_status :: "ff_exit \<Rightarrow> int" where
  "ff_status FF_TooManyTries = - 1"
| "ff_status FF_TooCloseToEdge = - 1"
| "ff_status FF_MomentError = - 2"
| "ff_status FF_FlatPeak = - 3"
| "ff_status (FF_Found ret) = ret"

text \<open>\<open>val[i][j]\<close> is \<open>sq[3*i+j]\<close>.\<close>

definition val :: "GAUSSMOM list \<Rightarrow> nat \<Rightarrow> nat \<Rightarrow> GAUSSMOM" where
  "val sq i j = sq ! (3 * i + j)"

text \<open>
  The pairs \<open>(i, j)\<close> of the two nested \<open>for\<close> loops over \<open>0..2\<close> without the centre
  \<open>(1, 1)\<close>, in the order in which the loops reach them.
\<close>

definition neighbours :: "(nat \<times> nat) list" where
  "neighbours = [(0, 0), (0, 1), (0, 2), (1, 0), (1, 2), (2, 0), (2, 1), (2, 2)]"

datatype scan_exit = Scan_Error | Scan_Moved "GAUSSMOM list" int int
  | Scan_Done "GAUSSMOM list"

text \<open>
  The nested loops: each neighbour is evaluated into \<open>val[i][j]\<close>; an error of
  \<open>lgausmom\<close> ends the scan, and so does a neighbour whose \<open>g_filval\<close> is above the
  central one, with the coordinates moved to it.
\<close>

fun scan :: "kernel \<Rightarrow> image \<Rightarrow> int \<Rightarrow> int \<Rightarrow> int \<Rightarrow> int \<Rightarrow> i32 \<Rightarrow> real
    \<Rightarrow> (nat \<times> nat) list \<Rightarrow> GAUSSMOM list \<Rightarrow> scan_exit outcome" where
  "scan K p xsz ysz x y sky vc [] sq = Return (Scan_Done sq)"
| "scan K p xsz ysz x y sky vc ((i, j) # rest) sq =
     (let yp = y + int i - 1; xp = x + int j - 1 in
      case lgausmom K p xsz ysz xp yp sky (val sq i j) of
        AssertFail \<Rightarrow> AssertFail
      | MemFault \<Rightarrow> MemFault
      | Return (e, g) \<Rightarrow>
          if lg_status e < 0 then Return Scan_Error
          else
            (let sq1 = sq[3 * i + j := g]; v = g_filval g in
             if v > vc then Return (Scan_Moved sq1 (x + (int j - 1)) (y + (int i - 1)))
             else scan K p xsz ysz x y sky vc rest sq1))"

text \<open>
  The code after the loops. All its local variables are \<open>float\<close>s. Three shapes of
  expression recur:
  \<^item> \<open>2.*c - hi - lo\<close>, computed in \<open>double\<close> and stored in a \<open>float\<close>;
  \<^item> \<open>0.5*(hi - lo)\<close>: the difference is computed in \<open>float\<close>, the product in
    \<open>double\<close>, and stored in a \<open>float\<close>;
  \<^item> \<open>c + s1*d1 + s2*d2 - 0.5*(d1*d1*c1 + d2*d2*c2)\<close>: the sums and products of
    \<open>float\<close>s are computed in \<open>float\<close>, the product with \<open>0.5\<close> and the last difference
    in \<open>double\<close>, and the result is stored in a \<open>float\<close> field.
\<close>

definition second_diff :: "real \<Rightarrow> real \<Rightarrow> real \<Rightarrow> real" where
  "second_diff c hi lo = f32 (f64 (f64 (f64 (2 * c) - hi) - lo))"

definition half_diff :: "real \<Rightarrow> real \<Rightarrow> real" where
  "half_diff hi lo = f32 (f64 (0.5 * f32 (hi - lo)))"

definition parabolic :: "real \<Rightarrow> real \<Rightarrow> real \<Rightarrow> real \<Rightarrow> real \<Rightarrow> real \<Rightarrow> real \<Rightarrow> real" where
  "parabolic c s1 d1 s2 d2 c1 c2 =
     f32 (f64 (f32 (f32 (c + f32 (s1 * d1)) + f32 (s2 * d2))
       - f64 (0.5 * f32 (f32 (f32 (d1 * d1) * c1) + f32 (f32 (d2 * d2) * c2)))))"

text \<open>
  \<open>v0 = vc + 0.5*(((sx*sx)/d2x + (sy*sy)/d2y))\<close>: the squares, quotients and their
  sum in \<open>float\<close>, the rest in \<open>double\<close>, stored in the \<open>float\<close> \<open>v0\<close>.
\<close>

definition peak_value :: "real \<Rightarrow> real \<Rightarrow> real \<Rightarrow> real \<Rightarrow> real \<Rightarrow> real" where
  "peak_value vc sx d2x sy d2y =
     f32 (f64 (vc + f64 (0.5 * f32 (f32 (f32 (sx * sx) / d2x) + f32 (f32 (sy * sy) / d2y)))))"

text \<open>
  The four second differences with their tests against \<open>EPS\<close>, the interpolated
  position (\<open>x + dx + DXF\<close>: \<open>x + dx\<close> in \<open>float\<close>, the sum with \<open>DXF\<close> in \<open>double\<close>), peak
  value (\<open>v0/32.\<close> in \<open>double\<close>) and moments.
\<close>

definition interpolate :: "GAUSSMOM list \<Rightarrow> int \<Rightarrow> int \<Rightarrow> int \<Rightarrow> GAUSSMOM \<Rightarrow> ff_exit \<times> GAUSSMOM" where
  "interpolate sq x y ret ps =
     (let vc = g_filval (val sq 1 1);
          d2x = second_diff vc (g_filval (val sq 1 2)) (g_filval (val sq 1 0)) in
      if d2x < EPS then (FF_FlatPeak, ps) else
     (let sx = half_diff (g_filval (val sq 1 2)) (g_filval (val sq 1 0));
          dx = f32 (sx / d2x);
          d2y = second_diff vc (g_filval (val sq 2 1)) (g_filval (val sq 0 1)) in
      if d2y < EPS then (FF_FlatPeak, ps) else
     (let sy = half_diff (g_filval (val sq 2 1)) (g_filval (val sq 0 1));
          dy = f32 (sy / d2y);
          d2p = second_diff vc (g_filval (val sq 2 2)) (g_filval (val sq 0 0)) in
      if d2p < EPS then (FF_FlatPeak, ps) else
     (let sp = half_diff (g_filval (val sq 2 2)) (g_filval (val sq 0 0));
          dp = f32 (sp / d2p);
          d2m = second_diff vc (g_filval (val sq 2 0)) (g_filval (val sq 0 2)) in
      if d2m < EPS then (FF_FlatPeak, ps) else
     (let sm = half_diff (g_filval (val sq 2 0)) (g_filval (val sq 0 2));
          dm = f32 (sm / d2m);
          ps1 = ps\<lparr>g_xf := f32 (f64 (f32 (f32 (real_of_int x) + dx) + DXF))\<rparr>;
          ps2 = ps1\<lparr>g_yf := f32 (f64 (f32 (f32 (real_of_int y) + dy) + DYF))\<rparr>;
          v0 = peak_value vc sx d2x sy d2y;
          ps3 = ps2\<lparr>g_filval := f32 (f64 (v0 / 32))\<rparr>;
          xvc = g_xmom (val sq 1 1);
          yvc = g_ymom (val sq 1 1);
          pvc = g_pmom (val sq 1 1);
          mvc = g_mmom (val sq 1 1);
          xd2x = second_diff xvc (g_xmom (val sq 1 2)) (g_xmom (val sq 1 0));
          xd2y = second_diff xvc (g_xmom (val sq 2 1)) (g_xmom (val sq 0 1));
          xsx = half_diff (g_xmom (val sq 1 2)) (g_xmom (val sq 1 0));
          xsy = half_diff (g_xmom (val sq 2 1)) (g_xmom (val sq 0 1));
          yd2x = second_diff yvc (g_ymom (val sq 1 2)) (g_ymom (val sq 1 0));
          yd2y = second_diff yvc (g_ymom (val sq 2 1)) (g_ymom (val sq 0 1));
          ysx = half_diff (g_ymom (val sq 1 2)) (g_ymom (val sq 1 0));
          ysy = half_diff (g_ymom (val sq 2 1)) (g_ymom (val sq 0 1));
          pd2p = second_diff pvc (g_pmom (val sq 2 2)) (g_pmom (val sq 0 0));
          pd2m = second_diff pvc (g_pmom (val sq 2 0)) (g_pmom (val sq 0 2));
          psp = half_diff (g_pmom (val sq 2 2)) (g_pmom (val sq 0 0));
          psm = half_diff (g_pmom (val sq 2 0)) (g_pmom (val sq 0 2));
          md2p = second_diff mvc (g_mmom (val sq 2 2)) (g_mmom (val sq 0 0));
          md2m = second_diff mvc (g_mmom (val sq 2 0)) (g_mmom (val sq 0 2));
          msp = half_diff (g_mmom (val sq 2 2)) (g_mmom (val sq 0 0));
          msm = half_diff (g_mmom (val sq 2 0)) (g_mmom (val sq 0 2));
          ps4 = ps3\<lparr>g_xmom := parabolic xvc xsx dx xsy dy xd2x xd2y\<rparr>;
          ps5 = ps4\<lparr>g_ymom := parabolic yvc ysx dx ysy dy yd2x yd2y\<rparr>;
          ps6 = ps5\<lparr>g_pmom := parabolic pvc psp dp psm dm pd2p pd2m\<rparr>;
          ps7 = ps6\<lparr>g_mmom := parabolic mvc msp dp msm dm md2p md2m\<rparr>
      in (FF_Found ret, ps7))))))"

text \<open>
  From the label \<open>start\<close> on. A jump back to \<open>start\<close> is a recursive call with \<open>ret\<close>,
  \<open>x\<close> and \<open>y\<close> as the code has changed them; the local array \<open>sq\<close> keeps what the
  attempts before have written.
\<close>

function ffm_start :: "kernel \<Rightarrow> image \<Rightarrow> int \<Rightarrow> int \<Rightarrow> i32 \<Rightarrow> GAUSSMOM \<Rightarrow> GAUSSMOM list
    \<Rightarrow> int \<Rightarrow> int \<Rightarrow> int \<Rightarrow> (ff_exit \<times> GAUSSMOM) outcome" where
  "ffm_start K p xsz ysz sky ps sq ret x y =
     (let ncut = int (sig_ncut K) in
      if ret \<ge> FINDERR then Return (FF_TooManyTries, ps)
      else if x < ncut \<or> y < ncut \<or> x > xsz - ncut - 1 \<or> y > ysz - ncut - 1
        then Return (FF_TooCloseToEdge, ps)
      else
        (case lgausmom K p xsz ysz x y sky (val sq 1 1) of
           AssertFail \<Rightarrow> AssertFail
         | MemFault \<Rightarrow> MemFault
         | Return (e, g) \<Rightarrow>
             if lg_status e < 0 then Return (FF_MomentError, ps)
             else
               (case scan K p xsz ysz x y sky (g_filval g) neighbours (sq[4 := g]) of
                  AssertFail \<Rightarrow> AssertFail
                | MemFault \<Rightarrow> MemFault
                | Return Scan_Error \<Rightarrow> Return (FF_MomentError, ps)
                | Return (Scan_Moved sq1 x1 y1) \<Rightarrow>
                    ffm_start K p xsz ysz sky ps sq1 (ret + 1) x1 y1
                | Return (Scan_Done sq1) \<Rightarrow> Return (interpolate sq1 x y ret ps))))"
  by pat_completeness auto
termination
  by (relation "measure (\<lambda>(K, p, xsz, ysz, sky, ps, sq, ret, x, y). nat (FINDERR - ret))")
    auto

declare ffm_start.simps [simp del]

text \<open>
  The local array \<open>sq\<close> is not initialised in C. Every field of it that is read has
  been written by \<open>lgausmom\<close> in the same attempt; the model starts it with zeros.
\<close>

definition gm_zero :: GAUSSMOM where
  "gm_zero = \<lparr>g_xmom = 0, g_ymom = 0, g_pmom = 0, g_mmom = 0, g_filval = 0,
     g_xf = 0, g_yf = 0\<rparr>"

definition atFindFocMom :: "kernel \<Rightarrow> image \<Rightarrow> int \<Rightarrow> int \<Rightarrow> int \<Rightarrow> int \<Rightarrow> i32 \<Rightarrow> GAUSSMOM
    \<Rightarrow> (ff_exit \<times> GAUSSMOM) outcome" where
  "atFindFocMom K p xsz ysz x y sky ps =
     ffm_start K p xsz ysz sky ps (replicate 9 gm_zero) 0 x y"

subsection \<open>atSigmaFind\<close>

text \<open>How one pass of the body of \<open>for(i=0;i<SIGITERAT;i++)\<close> ends.\<close>

datatype sf_exit = SF_Return int | SF_Break | SF_Continue

text \<open>
  The body. The state is the statics, the struct behind \<open>ps\<close> and \<open>*sig\<close>. \<open>x\<close> and
  \<open>y\<close> are passed to \<open>atFindFocMom\<close> by value: every pass starts from the caller's
  coordinates. \<open>*sig\<close> is a \<open>double\<close>, \<open>sigold\<close> and \<open>mom\<close> are \<open>float\<close>s: \<open>sigold\<close> is
  \<open>*sig\<close> rounded to \<open>float\<close>, \<open>mom\<close> a sum in \<open>float\<close>. In \<open>sqrt((2.+mom)/(2-mom))\<close>
  the numerator is computed in \<open>double\<close>, the denominator in \<open>float\<close>, the rest in
  \<open>double\<close>: \<open>sigma_update\<close> is the new value of \<open>*sig\<close>.
\<close>

definition sigma_update :: "real \<Rightarrow> real \<Rightarrow> real" where
  "sigma_update sig mom = f64 (sig * c_sqrt (f64 (f64 (2 + mom) / f32 (2 - mom))))"

definition sf_body :: "image \<Rightarrow> int \<Rightarrow> int \<Rightarrow> int \<Rightarrow> int \<Rightarrow> i32
    \<Rightarrow> kernel \<times> GAUSSMOM \<times> real \<Rightarrow> (sf_exit \<times> kernel \<times> GAUSSMOM \<times> real) outcome" where
  "sf_body p xsz ysz x y sky st =
     (case st of (K, ps, sig) \<Rightarrow>
      case atSetFSigma sig K of (r, K1) \<Rightarrow>
        if r < 0 then Return (SF_Return (- 1), K1, ps, sig)
        else
          (let sigold = f32 sig in
           case atFindFocMom K1 p xsz ysz x y sky ps of
             AssertFail \<Rightarrow> AssertFail
           | MemFault \<Rightarrow> MemFault
           | Return (e, ps1) \<Rightarrow>
               (let err = ff_status e in
                if err < 0 then Return (SF_Return (err - 3), K1, ps1, sig)
                else
                  (let mom = f32 (g_xmom ps1 + g_ymom ps1) in
                   if g_xmom ps1 \<le> - 1 \<or> g_xmom ps1 \<ge> 1 then Return (SF_Return (- 2), K1, ps1, sig)
                   else if g_ymom ps1 \<le> - 1 \<or> g_ymom ps1 \<ge> 1 then Return (SF_Return (- 2), K1, ps1, sig)
                   else if g_pmom ps1 \<le> - 1 \<or> g_pmom ps1 \<ge> 1 then Return (SF_Return (- 2), K1, ps1, sig)
                   else if g_mmom ps1 \<le> - 1 \<or> g_mmom ps1 \<ge> 1 then Return (SF_Return (- 2), K1, ps1, sig)
                   else if \<bar>mom\<bar> < SIGERR then Return (SF_Break, K1, ps1, sig)
                   else
                     (let sig1 = sigma_update sig mom in
                      if f64 (2 * \<bar>f64 (sigold - sig1)\<bar>) < SIGERR then Return (SF_Break, K1, ps1, sig1)
                      else Return (SF_Continue, K1, ps1, sig1))))))"

text \<open>How the loop ends: by a \<open>return\<close> in the body, or after it with the value of \<open>i\<close>.\<close>

datatype sf_loop_exit = SF_Returned int | SF_Exited nat

function sf_loop :: "image \<Rightarrow> int \<Rightarrow> int \<Rightarrow> int \<Rightarrow> int \<Rightarrow> i32 \<Rightarrow> nat
    \<Rightarrow> kernel \<times> GAUSSMOM \<times> real \<Rightarrow> (sf_loop_exit \<times> kernel \<times> GAUSSMOM \<times> real) outcome" where
  "sf_loop p xsz ysz x y sky i st =
     (if i < SIGITERAT then
        (case sf_body p xsz ysz x y sky st of
           AssertFail \<Rightarrow> AssertFail
         | MemFault \<Rightarrow> MemFault
         | Return (SF_Return c, st1) \<Rightarrow> Return (SF_Returned c, st1)
         | Return (SF_Break, st1) \<Rightarrow> Return (SF_Exited i, st1)
         | Return (SF_Continue, st1) \<Rightarrow> sf_loop p xsz ysz x y sky (Suc i) st1)
      else Return (SF_Exited i, st))"
  by pat_completeness auto
termination
  by (relation "measure (\<lambda>(p, xsz, ysz, x, y, sky, i, st). SIGITERAT - i)") auto

declare sf_loop.simps [simp del]


section \<open>Sample data and auxiliary notions\<close>

text \<open>
  The filter that \<open>atSetFSigma(0.125)\<close> generates from the initial statics (lemma
  \<open>atSetFSigma_eighth\<close> below): two taps, \<open>ncut = 2\<close>.
\<close>

definition kernel_eighth :: kernel where
  "kernel_eighth = \<lparr>fgarray = 512 # replicate 49 0, xfgarray = 0 # 4 # replicate 48 0,
     x2fgarray = 0 # 32 # replicate 48 0, sig_ncut = 2, sigmagen = 1 / 8\<rparr>"



text \<open>A 7x7 image with one maximum at row 3, column 3, and a 3x3 one.\<close>

definition hole7 :: image where
  "hole7 = [[100, 100, 100, 100, 100, 100, 100],
            [100, 100, 200, 300, 200, 100, 100],
            [100, 200, 500, 600, 500, 200, 100],
            [100, 300, 600, 900, 600, 300, 100],
            [100, 200, 500, 600, 500, 200, 100],
            [100, 100, 200, 300, 200, 100, 100],
            [100, 100, 100, 100, 100, 100, 100]]"

definition patch3 :: image where
  "patch3 = [[1, 2, 1], [2, 9, 2], [1, 2, 1]]"

text \<open>The place where a call has returned, if it has.\<close>

definition returned :: "('e \<times> 'a) outcome \<Rightarrow> 'e option" where
  "returned r = (case r of Return (e, g) \<Rightarrow> Some e | _ \<Rightarrow> None)"

text \<open>The image has the extents that the caller announces: \<open>ysz\<close> rows of \<open>xsz\<close> pixels.\<close>

definition wf_image :: "image \<Rightarrow> int \<Rightarrow> int \<Rightarrow> bool" where
  "wf_image p xsz ysz \<longleftrightarrow> int (length p) = ysz \<and> (\<forall>row \<in> set p. int (length row) = xsz)"

text \<open>Every pixel of the image has the value \<open>c\<close>.\<close>

definition flat_image :: "image \<Rightarrow> u16 \<Rightarrow> bool" where
  "flat_image p c \<longleftrightarrow> (\<forall>row \<in> set p. \<forall>v \<in> set row. v = c)"

text \<open>
  The \<open>g_filval\<close> that \<open>lgausmom\<close> writes for the pixel \<open>(x, y)\<close>, when it runs to its
  end there.
\<close>

definition filval_at :: "kernel \<Rightarrow> image \<Rightarrow> int \<Rightarrow> int \<Rightarrow> int \<Rightarrow> int \<Rightarrow> i32 \<Rightarrow> real option" where
  "filval_at K p xsz ysz x y sky =
     (case lgausmom K p xsz ysz x y sky gm_zero of
        Return (LG_Done, g) \<Rightarrow> Some (g_filval g)
      | _ \<Rightarrow> None)"

text \<open>
  The array \<open>sq\<close> after a scan around \<open>(xc, yc)\<close> that has found no neighbour above
  the centre: the nine \<open>g_filval\<close> are the ones of \<open>lgausmom\<close> at the nine pixels.
\<close>

definition local_max :: "kernel \<Rightarrow> image \<Rightarrow> int \<Rightarrow> int \<Rightarrow> i32 \<Rightarrow> int \<Rightarrow> int
    \<Rightarrow> GAUSSMOM list \<Rightarrow> bool" where
  "local_max K p xsz ysz sky xc yc sq \<longleftrightarrow>
     length sq = 9
     \<and> (\<forall>i < 3. \<forall>j < 3.
          filval_at K p xsz ysz (xc + int j - 1) (yc + int i - 1) sky
            = Some (g_filval (val sq i j))
          \<and> g_filval (val sq i j) \<le> g_filval (val sq 1 1))"

text \<open>The test of \<open>atFindFocMom\<close> for a centre too close to an edge.\<close>

definition near_edge :: "kernel \<Rightarrow> int \<Rightarrow> int \<Rightarrow> int \<Rightarrow> int \<Rightarrow> bool" where
  "near_edge K xsz ysz x y \<longleftrightarrow>
     x < int (sig_ncut K) \<or> y < int (sig_ncut K)
     \<or> x > xsz - int (sig_ncut K) - 1 \<or> y > ysz - int (sig_ncut K) - 1"

text \<open>
  One pass of \<open>atFindFocMom\<close> from the label \<open>start\<close>, after the test of \<open>ret\<close>, with
  the array \<open>sq\<close> as the passes before have left it: it ends at the edge test, at
  an error of \<open>lgausmom\<close>, at the \<open>goto\<close> with the array and the new centre, or after
  the two loops with the array filled.
\<close>

datatype attempt_exit = A_Edge | A_Error | A_Moved "GAUSSMOM list" int int
  | A_Max "GAUSSMOM list"

definition attempt :: "kernel \<Rightarrow> image \<Rightarrow> int \<Rightarrow> int \<Rightarrow> i32 \<Rightarrow> GAUSSMOM list \<Rightarrow> int \<Rightarrow> int
    \<Rightarrow> attempt_exit outcome" where
  "attempt K p xsz ysz sky sq x y =
     (if near_edge K xsz ysz x y then Return A_Edge
      else
        (case lgausmom K p xsz ysz x y sky (val sq 1 1) of
           AssertFail \<Rightarrow> AssertFail
         | MemFault \<Rightarrow> MemFault
         | Return (e, g) \<Rightarrow>
             if lg_status e < 0 then Return A_Error
             else
               (case scan K p xsz ysz x y sky (g_filval g) neighbours (sq[4 := g]) of
                  AssertFail \<Rightarrow> AssertFail
                | MemFault \<Rightarrow> MemFault
                | Return Scan_Error \<Rightarrow> Return A_Error
                | Return (Scan_Moved sq1 x1 y1) \<Rightarrow> Return (A_Moved sq1 x1 y1)
                | Return (Scan_Done sq1) \<Rightarrow> Return (A_Max sq1))))"

text \<open>
  \<open>relocated n (sq, x, y)\<close>: the array and the centre after \<open>n\<close> passes that have each
  ended at the \<open>goto\<close>, when the first \<open>n\<close> passes from \<open>(sq, x, y)\<close> do so. The passes
  are determined by the start, so there is at most one such \<open>n\<close>-th centre.
\<close>

fun relocated :: "kernel \<Rightarrow> image \<Rightarrow> int \<Rightarrow> int \<Rightarrow> i32 \<Rightarrow> nat
    \<Rightarrow> GAUSSMOM list \<times> int \<times> int \<Rightarrow> (GAUSSMOM list \<times> int \<times> int) option" where
  "relocated K p xsz ysz sky 0 st = Some st"
| "relocated K p xsz ysz sky (Suc n) (sq, x, y) =
     (case attempt K p xsz ysz sky sq x y of
        Return (A_Moved sq1 x1 y1) \<Rightarrow> relocated K p xsz ysz sky n (sq1, x1, y1)
      | _ \<Rightarrow> None)"

text \<open>The array \<open>sq\<close> at the start of \<open>atFindFocMom\<close>.\<close>

definition sq_init :: "GAUSSMOM list" where
  "sq_init = replicate 9 gm_zero"

text \<open>
  What \<open>atFindFocMom\<close> returns from a pass that starts with \<open>ret = r\<close>, the array \<open>sq\<close>
  and the centre \<open>(xc, yc)\<close> and does not end at the \<open>goto\<close>.
\<close>

definition last_attempt :: "kernel \<Rightarrow> image \<Rightarrow> int \<Rightarrow> int \<Rightarrow> i32 \<Rightarrow> GAUSSMOM \<Rightarrow> int
    \<Rightarrow> GAUSSMOM list \<Rightarrow> int \<Rightarrow> int \<Rightarrow> ff_exit \<times> GAUSSMOM \<Rightarrow> bool" where
  "last_attempt K p xsz ysz sky ps r sq xc yc res \<longleftrightarrow>
     (r \<ge> FINDERR \<and> res = (FF_TooManyTries, ps))
     \<or> (r < FINDERR \<and> attempt K p xsz ysz sky sq xc yc = Return A_Edge
          \<and> res = (FF_TooCloseToEdge, ps))
     \<or> (r < FINDERR \<and> attempt K p xsz ysz sky sq xc yc = Return A_Error
          \<and> res = (FF_MomentError, ps))
     \<or> (r < FINDERR
          \<and> (\<exists>sq1. attempt K p xsz ysz sky sq xc yc = Return (A_Max sq1)
                \<and> res = interpolate sq1 xc yc r ps))"

text \<open>A 20x20 image that falls off from the corner \<open>(0, 0)\<close>.\<close>

definition ramp20 :: image where
  "ramp20 =
    [[100, 99, 98, 97, 96, 95, 94, 93, 92, 91, 90, 89, 88, 87, 86, 85, 84, 83, 82, 81],
     [99, 98, 97, 96, 95, 94, 93, 92, 91, 90, 89, 88, 87, 86, 85, 84, 83, 82, 81, 80],
     [98, 97, 96, 95, 94, 93, 92, 91, 90, 89, 88, 87, 86, 85, 84, 83, 82, 81, 80, 79],
     [97, 96, 95, 94, 93, 92, 91, 90, 89, 88, 87, 86, 85, 84, 83, 82, 81, 80, 79, 78],
     [96, 95, 94, 93, 92, 91, 90, 89, 88, 87, 86, 85, 84, 83, 82, 81, 80, 79, 78, 77],
     [95, 94, 93, 92, 91, 90, 89, 88, 87, 86, 85, 84, 83, 82, 81, 80, 79, 78, 77, 76],
     [94, 93, 92, 91, 90, 89, 88, 87, 86, 85, 84, 83, 82, 81, 80, 79, 78, 77, 76, 75],
     [93, 92, 91, 90, 89, 88, 87, 86, 85, 84, 83, 82, 81, 80, 79, 78, 77, 76, 75, 74],
     [92, 91, 90, 89, 88, 87, 86, 85, 84, 83, 82, 81, 80, 79, 78, 77, 76, 75, 74, 73],
     [91, 90, 89, 88, 87, 86, 85, 84, 83, 82, 81, 80, 79, 78, 77, 76, 75, 74, 73, 72],
     [90, 89, 88, 87, 86, 85, 84, 83, 82, 81, 80, 79, 78, 77, 76, 75, 74, 73, 72, 71],
     [89, 88, 87, 86, 85, 84, 83, 82, 81, 80, 79, 78, 77, 76, 75, 74, 73, 72, 71, 70],
     [88, 87, 86, 85, 84, 83, 82, 81, 80, 79, 78, 77, 76, 75, 74, 73, 72, 71, 70, 69],
     [87, 86, 85, 84, 83, 82, 81, 80, 79, 78, 77, 76, 75, 74, 73, 72, 71, 70, 69, 68],
     [86, 85, 84, 83, 82, 81, 80, 79, 78, 77, 76, 75, 74, 73, 72, 71, 70, 69, 68, 67],
     [85, 84, 83, 82, 81, 80, 79, 78, 77, 76, 75, 74, 73, 72, 71, 70, 69, 68, 67, 66],
     [84, 83, 82, 81, 80, 79, 78, 77, 76, 75, 74, 73, 72, 71, 70, 69, 68, 67, 66, 65],
     [83, 82, 81, 80, 79, 78, 77, 76, 75, 74, 73, 72, 71, 70, 69, 68, 67, 66, 65, 64],
     [82, 81, 80, 79, 78, 77, 76, 75, 74, 73, 72, 71, 70, 69, 68, 67, 66, 65, 64, 63],
     [81, 80, 79, 78, 77, 76, 75, 74, 73, 72, 71, 70, 69, 68, 67, 66, 65, 64, 63, 62]]"

text \<open>
  The array \<open>sq\<close> after the pass of \<open>atFindFocMom\<close> around the pixel \<open>(3, 3)\<close> of
  \<open>hole7\<close> with \<open>sky = 0\<close> and the filter above (lemma \<open>hole7_attempt\<close> below).
\<close>

definition hole7_sq :: "GAUSSMOM list" where
  "hole7_sq =
    [\<lparr>g_xmom = - (13421773 / 16777216), g_ymom = - (13421773 / 16777216),
        g_pmom = - (13421773 / 16777216), g_mmom = - (13421773 / 16777216),
        g_filval = 16000, g_xf = 0, g_yf = 0\<rparr>,
     \<lparr>g_xmom = - (13281963 / 16777216), g_ymom = - (3 / 4),
        g_pmom = - (12932437 / 16777216), g_mmom = - (12932437 / 16777216),
        g_filval = 19200, g_xf = 0, g_yf = 0\<rparr>,
     \<lparr>g_xmom = - (13421773 / 16777216), g_ymom = - (13421773 / 16777216),
        g_pmom = - (3354919 / 4194304), g_mmom = - (6711935 / 8388608),
        g_filval = 16000, g_xf = 0, g_yf = 0\<rparr>,
     \<lparr>g_xmom = - (3 / 4), g_ymom = - (13281963 / 16777216),
        g_pmom = - (12932437 / 16777216), g_mmom = - (12932437 / 16777216),
        g_filval = 19200, g_xf = 0, g_yf = 0\<rparr>,
     \<lparr>g_xmom = - (13981013 / 16777216), g_ymom = - (13981013 / 16777216),
        g_pmom = - (13981013 / 16777216), g_mmom = - (13981013 / 16777216),
        g_filval = 28800, g_xf = 0, g_yf = 0\<rparr>,
     \<lparr>g_xmom = - (3 / 4), g_ymom = - (13281963 / 16777216),
        g_pmom = - (12932437 / 16777216), g_mmom = - (12932437 / 16777216),
        g_filval = 19200, g_xf = 0, g_yf = 0\<rparr>,
     \<lparr>g_xmom = - (13421773 / 16777216), g_ymom = - (13421773 / 16777216),
        g_pmom = - (3354919 / 4194304), g_mmom = - (6711935 / 8388608),
        g_filval = 16000, g_xf = 0, g_yf = 0\<rparr>,
     \<lparr>g_xmom = - (13281963 / 16777216), g_ymom = - (3 / 4),
        g_pmom = - (12932437 / 16777216), g_mmom = - (12932437 / 16777216),
        g_filval = 19200, g_xf = 0, g_yf = 0\<rparr>,
     \<lparr>g_xmom = - (13421773 / 16777216), g_ymom = - (13421773 / 16777216),
        g_pmom = - (13421773 / 16777216), g_mmom = - (13421773 / 16777216),
        g_filval = 16000, g_xf = 0, g_yf = 0\<rparr>]"

text \<open>
  The exact second difference and half first difference of three values on a
  line.
\<close>

definition curvature :: "real \<Rightarrow> real \<Rightarrow> real \<Rightarrow> real" where
  "curvature centre hi lo = 2 * centre - hi - lo"

definition slope :: "real \<Rightarrow> real \<Rightarrow> real" where
  "slope hi lo = 0.5 * (hi - lo)"


text \<open>
  \<open>passes n st\<close>: the state after \<open>n\<close> passes of the loop of \<open>atSigmaFind\<close> from the
  state \<open>st\<close>, when each of them comes to the end of the body (no \<open>return\<close>, no
  \<open>break\<close>).
\<close>

fun passes :: "image \<Rightarrow> int \<Rightarrow> int \<Rightarrow> int \<Rightarrow> int \<Rightarrow> i32 \<Rightarrow> nat
    \<Rightarrow> kernel \<times> GAUSSMOM \<times> real \<Rightarrow> (kernel \<times> GAUSSMOM \<times> real) option" where
  "passes p xsz ysz x y sky 0 st = Some st"
| "passes p xsz ysz x y sky (Suc n) st =
     (case sf_body p xsz ysz x y sky st of
        Return (SF_Continue, st1) \<Rightarrow> passes p xsz ysz x y sky n st1
      | _ \<Rightarrow> None)"

text \<open>Two flat 5x5 images: every pixel 7, and every pixel 0.\<close>

definition flat5 :: image where
  "flat5 = [[7, 7, 7, 7, 7], [7, 7, 7, 7, 7], [7, 7, 7, 7, 7], [7, 7, 7, 7, 7],
     [7, 7, 7, 7, 7]]"

definition zero5 :: image where
  "zero5 = [[0, 0, 0, 0, 0], [0, 0, 0, 0, 0], [0, 0, 0, 0, 0], [0, 0, 0, 0, 0],
     [0, 0, 0, 0, 0]]"

section \<open>Properties\<close>

subsection \<open>Powers of two\<close>

lemma pow2_powr: "pow2 e = 2 powr (real_of_int e)"
proof (cases "0 \<le> e")
  case True
  then have "real_of_int e = real (nat e)" by simp
  then show ?thesis using True by (simp add: pow2_def powr_realpow del: of_nat_nat)
next
  case False
  then have "real_of_int e = - real (nat (- e))" by simp
  then show ?thesis using False
    by (simp add: pow2_def powr_minus powr_realpow inverse_eq_divide del: of_nat_nat)
qed

lemma pow2_pos [simp]: "0 < pow2 e"
  by (simp add: pow2_powr)

lemma pow2_nonneg [simp]: "0 \<le> pow2 e"
  by (simp add: pow2_powr)

lemma pow2_neq_0 [simp]: "pow2 e \<noteq> 0"
  by (simp add: pow2_powr)

lemma abs_pow2 [simp]: "\<bar>pow2 e\<bar> = pow2 e"
  by (simp add: pow2_powr)

lemma pow2_add: "pow2 (a + b) = pow2 a * pow2 b"
  by (simp add: pow2_powr powr_add)

lemma pow2_0 [simp]: "pow2 0 = 1"
  by (simp add: pow2_def)

lemma pow2_Suc: "pow2 (e + 1) = 2 * pow2 e"
  by (simp add: pow2_add) (simp add: pow2_def)

lemma pow2_diff: "pow2 (a - b) = pow2 a / pow2 b"
  by (simp add: pow2_powr powr_diff)

lemma pow2_mono: "a \<le> b \<Longrightarrow> pow2 a \<le> pow2 b"
  by (simp add: pow2_powr)

lemma pow2_less_iff: "pow2 a < pow2 b \<longleftrightarrow> a < b"
  by (simp add: pow2_powr)

lemma pow2_nat: "0 \<le> e \<Longrightarrow> pow2 e = real_of_int (2 ^ nat e)"
  by (simp add: pow2_def)

subsection \<open>The binary exponent\<close>

lemma ilog2_bounds:
  assumes "0 < x"
  shows "pow2 (ilog2 x) \<le> x \<and> x < pow2 (ilog2 x + 1)"
  using assms
proof (induction x rule: ilog2.induct)
  case (1 x)
  show ?case
  proof (cases "x < 1")
    case True
    have e: "ilog2 x = ilog2 (2 * x) - 1" using True "1.prems" by (subst ilog2.simps) simp
    have "pow2 (ilog2 (2 * x)) \<le> 2 * x \<and> 2 * x < pow2 (ilog2 (2 * x) + 1)"
      using "1.IH"(1) True "1.prems" by simp
    then show ?thesis unfolding e using pow2_Suc [of "ilog2 (2 * x) - 1"] pow2_Suc [of "ilog2 (2 * x)"]
      by simp
  next
    case False
    show ?thesis
    proof (cases "2 \<le> x")
      case True
      have e: "ilog2 x = ilog2 (x / 2) + 1" using True by (subst ilog2.simps) simp
      have "pow2 (ilog2 (x / 2)) \<le> x / 2 \<and> x / 2 < pow2 (ilog2 (x / 2) + 1)"
        using "1.IH"(2) True False "1.prems" by simp
      then show ?thesis unfolding e
        using pow2_Suc [of "ilog2 (x / 2) + 1"] pow2_Suc [of "ilog2 (x / 2)"] by simp
    next
      case F2: False
      have e: "ilog2 x = 0" using False F2 "1.prems" by (subst ilog2.simps) simp
      show ?thesis unfolding e using False F2 by (simp add: pow2_def)
    qed
  qed
qed

lemma ilog2_unique:
  assumes "pow2 k \<le> x" and "x < pow2 (k + 1)"
  shows "ilog2 x = k"
proof -
  have x: "0 < x" using assms(1) pow2_pos [of k] by linarith
  note b = ilog2_bounds [OF x]
  have "pow2 k < pow2 (ilog2 x + 1)" using assms(1) b by linarith
  then have 1: "k < ilog2 x + 1" by (simp add: pow2_less_iff)
  have "pow2 (ilog2 x) < pow2 (k + 1)" using assms(2) b by linarith
  then have "ilog2 x < k + 1" by (simp add: pow2_less_iff)
  then show ?thesis using 1 by simp
qed

lemma ilog2_mono:
  assumes "0 < x" and "x \<le> y"
  shows "ilog2 x \<le> ilog2 y"
proof -
  have y: "0 < y" using assms by simp
  have "pow2 (ilog2 x) < pow2 (ilog2 y + 1)"
    using ilog2_bounds [OF assms(1)] ilog2_bounds [OF y] assms(2) by linarith
  then show ?thesis by (simp add: pow2_less_iff)
qed

subsection \<open>Rounding to the nearest integer, ties to even\<close>

lemma rne_cases: "rne q = \<lfloor>q\<rfloor> \<or> rne q = \<lfloor>q\<rfloor> + 1"
  by (simp add: rne_def Let_def)

lemma rne_of_int [simp]: "rne (of_int k) = k"
  by (simp add: rne_def)

lemma rne_ge: "of_int k \<le> q \<Longrightarrow> k \<le> rne q"
  using rne_cases [of q] by (auto simp: le_floor_iff) linarith+

lemma rne_le: "q \<le> of_int k \<Longrightarrow> rne q \<le> k"
proof -
  assume a: "q \<le> of_int k"
  show ?thesis
  proof (cases "q = of_int k")
    case True
    then show ?thesis by simp
  next
    case False
    then have "q < of_int k" using a by simp
    then have "\<lfloor>q\<rfloor> < k" by (simp add: floor_less_iff)
    then show ?thesis using rne_cases [of q] by auto
  qed
qed

lemma rne_mono: "q \<le> r \<Longrightarrow> rne q \<le> rne r"
proof -
  assume a: "q \<le> r"
  then have f: "\<lfloor>q\<rfloor> \<le> \<lfloor>r\<rfloor>" by (rule floor_mono)
  show ?thesis
  proof (cases "\<lfloor>q\<rfloor> = \<lfloor>r\<rfloor>")
    case True
    then show ?thesis using a by (auto simp: rne_def Let_def)
  next
    case False
    then have "\<lfloor>q\<rfloor> + 1 \<le> \<lfloor>r\<rfloor>" using f by simp
    then show ?thesis using rne_cases [of q] rne_cases [of r] by auto
  qed
qed

lemma rne_abs_le: "\<bar>real_of_int (rne q) - q\<bar> \<le> 1 / 2"
  by (auto simp: rne_def Let_def abs_if) linarith+


lemma rne_minus: "rne (- q) = - rne q"
proof (cases "q \<in> \<int>")
  case True
  then obtain k where "q = of_int k" by (auto elim: Ints_cases)
  then have "- q = of_int (- k)" by simp
  then show ?thesis using \<open>q = of_int k\<close> by (simp only: rne_of_int)
next
  case False
  then have "q \<noteq> of_int \<lfloor>q\<rfloor>" by (metis Ints_of_int)
  then have f: "\<lfloor>- q\<rfloor> = - \<lfloor>q\<rfloor> - 1"
    by (simp add: floor_minus ceiling_altdef)
  show ?thesis unfolding rne_def Let_def f by auto
qed

subsection \<open>Rounding to a binary floating-point format\<close>

lemma round_to_0 [simp]: "round_to p emin 0 = 0"
  by (simp add: round_to_def)

lemma round_to_minus: "round_to p emin (- x) = - round_to p emin x"
  by (simp add: round_to_def Let_def rne_minus)

lemma round_to_nonneg: "0 \<le> x \<Longrightarrow> 0 \<le> round_to p emin x"
  using rne_ge [of 0 "x / pow2 (max (ilog2 \<bar>x\<bar> - int p + 1) emin)"]
  by (simp add: round_to_def Let_def zero_le_mult_iff)

lemma round_to_nonpos: "x \<le> 0 \<Longrightarrow> round_to p emin x \<le> 0"
  using round_to_nonneg [of "- x" p emin] by (simp add: round_to_minus)

lemma round_to_exact_lt:
  assumes m: "\<bar>m\<bar> < 2 ^ p" and k: "emin \<le> k"
  shows "round_to p emin (of_int m * pow2 k) = of_int m * pow2 k"
proof (cases "m = 0")
  case True
  then show ?thesis by simp
next
  case False
  define x where "x = real_of_int m * pow2 k"
  define e where "e = max (ilog2 \<bar>x\<bar> - int p + 1) emin"
  have x0: "x \<noteq> 0" using False by (simp add: x_def less_imp_neq [OF pow2_pos, THEN not_sym])
  have ax: "\<bar>x\<bar> = real_of_int \<bar>m\<bar> * pow2 k" by (simp add: x_def abs_mult)
  have "real_of_int \<bar>m\<bar> < real_of_int (2 ^ p)" using m by (simp only: of_int_less_iff)
  then have "real_of_int \<bar>m\<bar> < pow2 (int p)" by (simp add: pow2_def)
  then have "\<bar>x\<bar> < pow2 (int p) * pow2 k" unfolding ax by (simp add: mult_strict_right_mono)
  then have "\<bar>x\<bar> < pow2 (int p + k)" by (simp add: pow2_add)
  moreover have "pow2 (ilog2 \<bar>x\<bar>) \<le> \<bar>x\<bar>" using ilog2_bounds [of "\<bar>x\<bar>"] x0 by simp
  ultimately have "pow2 (ilog2 \<bar>x\<bar>) < pow2 (int p + k)" by linarith
  then have "ilog2 \<bar>x\<bar> < int p + k" by (simp add: pow2_less_iff)
  then have ek: "e \<le> k" using k by (simp add: e_def)
  have "x / pow2 e = real_of_int m * pow2 (k - e)" by (simp add: x_def pow2_diff)
  also have "\<dots> = real_of_int (m * 2 ^ nat (k - e))" using ek by (simp add: pow2_def)
  finally have q: "x / pow2 e = real_of_int (m * 2 ^ nat (k - e))" .
  have "real_of_int (rne (x / pow2 e)) * pow2 e = x / pow2 e * pow2 e"
    unfolding q rne_of_int ..
  also have "\<dots> = x" using pow2_pos [of e] by simp
  finally show ?thesis using x0 unfolding round_to_def Let_def e_def [symmetric] x_def [symmetric]
    by simp
qed

lemma round_to_exact:
  assumes m: "\<bar>m\<bar> \<le> 2 ^ p" and k: "emin \<le> k" and p: "1 \<le> p"
  shows "round_to p emin (of_int m * pow2 k) = of_int m * pow2 k"
proof (cases "\<bar>m\<bar> < 2 ^ p")
  case True
  then show ?thesis using k by (rule round_to_exact_lt)
next
  case False
  then have am: "\<bar>m\<bar> = 2 ^ p" using m by simp
  obtain p' where p': "p = Suc p'" using p by (cases p) simp_all
  have "even m" using am p' by (metis dvd_abs_iff even_power dvd_refl zero_less_Suc)
  then have m2: "m = 2 * (m div 2)" by simp
  have "\<bar>m\<bar> = 2 * \<bar>m div 2\<bar>" by (subst m2) (simp add: abs_mult)
  then have "2 * \<bar>m div 2\<bar> = 2 * 2 ^ p'" using am p' by simp
  then have "\<bar>m div 2\<bar> = 2 ^ p'" by simp
  then have "\<bar>m div 2\<bar> < 2 ^ p" unfolding p' by simp
  then have "round_to p emin (of_int (m div 2) * pow2 (k + 1)) = of_int (m div 2) * pow2 (k + 1)"
    using k by (intro round_to_exact_lt) simp_all
  moreover have "real_of_int (m div 2) * pow2 (k + 1) = real_of_int m * pow2 k"
    by (subst (2) m2) (simp add: pow2_Suc)
  ultimately show ?thesis by simp
qed

lemma round_to_quotient_bound:
  assumes "x \<noteq> 0"
  shows "\<bar>x\<bar> / pow2 (max (ilog2 \<bar>x\<bar> - int p + 1) emin) < 2 ^ p"
proof -
  define e where "e = max (ilog2 \<bar>x\<bar> - int p + 1) emin"
  have "\<bar>x\<bar> < pow2 (ilog2 \<bar>x\<bar> + 1)" using ilog2_bounds [of "\<bar>x\<bar>"] assms by simp
  also have "pow2 (ilog2 \<bar>x\<bar> + 1) \<le> pow2 (e + int p)" by (rule pow2_mono) (simp add: e_def)
  also have "\<dots> = pow2 e * 2 ^ p" by (simp add: pow2_add) (simp add: pow2_def)
  finally have "\<bar>x\<bar> / pow2 e < 2 ^ p" by (simp add: pos_divide_less_eq mult.commute)
  then show ?thesis by (simp add: e_def)
qed

lemma round_to_repr:
  "\<exists>m k. round_to p emin x = of_int m * pow2 k \<and> \<bar>m\<bar> \<le> 2 ^ p \<and> emin \<le> k"
proof (cases "x = 0")
  case True
  then show ?thesis by (intro exI [of _ 0] exI [of _ emin]) simp
next
  case False
  define e where "e = max (ilog2 \<bar>x\<bar> - int p + 1) emin"
  have b: "\<bar>x\<bar> / pow2 e < 2 ^ p" using round_to_quotient_bound [OF False] by (simp add: e_def)
  have "\<bar>x / pow2 e\<bar> = \<bar>x\<bar> / pow2 e" by (simp add: abs_divide)
  then have b2: "x / pow2 e \<le> real_of_int (2 ^ p)" "real_of_int (- (2 ^ p)) \<le> x / pow2 e"
    using b by (simp_all add: abs_if split: if_splits)
  have "rne (x / pow2 e) \<le> 2 ^ p" "- (2 ^ p) \<le> rne (x / pow2 e)"
    using rne_le [OF b2(1)] rne_ge [OF b2(2)] by simp_all
  then have "\<bar>rne (x / pow2 e)\<bar> \<le> 2 ^ p" by simp
  moreover have "round_to p emin x = of_int (rne (x / pow2 e)) * pow2 e"
    using False by (simp add: round_to_def Let_def e_def)
  moreover have "emin \<le> e" by (simp add: e_def)
  ultimately show ?thesis by blast
qed

lemma round_to_idem:
  assumes "p \<le> p'" and "emin' \<le> emin" and "1 \<le> p"
  shows "round_to p' emin' (round_to p emin x) = round_to p emin x"
proof -
  obtain m k where r: "round_to p emin x = of_int m * pow2 k" and m: "\<bar>m\<bar> \<le> 2 ^ p" and k: "emin \<le> k"
    using round_to_repr [of p emin x] by blast
  have "(2::int) ^ p \<le> 2 ^ p'" using assms(1) by (simp add: power_increasing)
  then have "\<bar>m\<bar> \<le> 2 ^ p'" using m by (rule order_trans [rotated])
  then show ?thesis unfolding r using assms k by (intro round_to_exact) simp_all
qed

lemma round_to_int:
  assumes "\<bar>n\<bar> \<le> 2 ^ p" and "emin \<le> 0" and "1 \<le> p"
  shows "round_to p emin (of_int n) = of_int n"
  using round_to_exact [of n p emin 0] assms by simp

lemma round_to_pos_mono:
  assumes x: "0 < x" and xy: "x \<le> y" and p: "1 \<le> p"
  shows "round_to p emin x \<le> round_to p emin y"
proof -
  define ex where "ex = max (ilog2 \<bar>x\<bar> - int p + 1) emin"
  define ey where "ey = max (ilog2 \<bar>y\<bar> - int p + 1) emin"
  have y: "0 < y" using x xy by simp
  have rx: "round_to p emin x = of_int (rne (x / pow2 ex)) * pow2 ex"
    using x by (simp add: round_to_def Let_def ex_def)
  have ry: "round_to p emin y = of_int (rne (y / pow2 ey)) * pow2 ey"
    using y by (simp add: round_to_def Let_def ey_def)
  have "ilog2 x \<le> ilog2 y" using x xy by (rule ilog2_mono)
  then have exy: "ex \<le> ey" using x y by (simp add: ex_def ey_def)
  show ?thesis
  proof (cases "ex = ey")
    case True
    have "x / pow2 ey \<le> y / pow2 ey" using xy by (intro divide_right_mono) simp_all
    then have "rne (x / pow2 ey) \<le> rne (y / pow2 ey)" by (rule rne_mono)
    then have "real_of_int (rne (x / pow2 ey)) \<le> real_of_int (rne (y / pow2 ey))" by simp
    then show ?thesis unfolding rx ry True by (simp add: mult_right_mono)
  next
    case False
    then have lt: "ex < ey" using exy by simp
    have "emin \<le> ex" by (simp add: ex_def)
  then have "emin < ey" using lt by simp
  then have eyv: "ey = ilog2 y - int p + 1" using y by (simp add: ey_def max_def split: if_splits)
    define B where "B = pow2 (ey + int p - 1)"
    have yB: "B \<le> y" using ilog2_bounds [OF y] by (simp add: B_def eyv)
    have "B / pow2 ey = pow2 (int p - 1)" by (simp add: B_def pow2_diff [symmetric])
    also have "\<dots> = real_of_int (2 ^ nat (int p - 1))" using p by (simp add: pow2_def)
    finally have By: "B / pow2 ey = real_of_int (2 ^ nat (int p - 1))" .
    have "B / pow2 ey \<le> y / pow2 ey" using yB by (intro divide_right_mono) simp_all
    then have "2 ^ nat (int p - 1) \<le> rne (y / pow2 ey)" unfolding By by (rule rne_ge)
    then have "real_of_int (2 ^ nat (int p - 1)) \<le> real_of_int (rne (y / pow2 ey))"
      by (simp only: of_int_le_iff)
    then have "B / pow2 ey * pow2 ey \<le> real_of_int (rne (y / pow2 ey)) * pow2 ey"
      unfolding By by (simp add: mult_right_mono)
    then have 1: "B \<le> round_to p emin y" unfolding ry by simp
    have "ilog2 x - int p + 1 \<le> ex" using x by (simp add: ex_def)
    then have "ilog2 x + 1 \<le> ey + int p - 1" using lt by simp
    then have "pow2 (ilog2 x + 1) \<le> B" unfolding B_def by (rule pow2_mono)
    then have xB: "x \<le> B" using ilog2_bounds [OF x] by simp
    have "B / pow2 ex = pow2 (ey + int p - 1 - ex)" by (simp add: B_def pow2_diff [symmetric])
    also have "\<dots> = real_of_int (2 ^ nat (ey + int p - 1 - ex))" using lt p by (simp add: pow2_def)
    finally have Bx: "B / pow2 ex = real_of_int (2 ^ nat (ey + int p - 1 - ex))" .
    have "x / pow2 ex \<le> B / pow2 ex" using xB by (intro divide_right_mono) simp_all
    then have "rne (x / pow2 ex) \<le> 2 ^ nat (ey + int p - 1 - ex)" unfolding Bx by (rule rne_le)
    then have "real_of_int (rne (x / pow2 ex)) \<le> real_of_int (2 ^ nat (ey + int p - 1 - ex))"
      by (simp only: of_int_le_iff)
    then have "real_of_int (rne (x / pow2 ex)) * pow2 ex \<le> B / pow2 ex * pow2 ex"
      unfolding Bx by (simp add: mult_right_mono)
    then have 2: "round_to p emin x \<le> B" unfolding rx by simp
    show ?thesis using 1 2 by simp
  qed
qed

lemma round_to_mono:
  assumes xy: "x \<le> y" and p: "1 \<le> p"
  shows "round_to p emin x \<le> round_to p emin y"
proof -
  consider "0 < x" | "x \<le> 0" "0 \<le> y" | "y < 0" by linarith
  then show ?thesis
  proof cases
    case 1
    then show ?thesis using xy p by (rule round_to_pos_mono)
  next
    case 2
    then show ?thesis using round_to_nonpos [of x p emin] round_to_nonneg [of y p emin] by simp
  next
    case 3
    then have "0 < - y" "- y \<le> - x" using xy by simp_all
    then have "round_to p emin (- y) \<le> round_to p emin (- x)" using p by (rule round_to_pos_mono)
    then show ?thesis by (simp add: round_to_minus)
  qed
qed

lemma round_to_Ints:
  assumes "x \<in> \<int>" and "emin \<le> 0"
  shows "round_to p emin x \<in> \<int>"
proof (cases "x = 0")
  case True
  then show ?thesis by simp
next
  case False
  obtain n where n: "x = of_int n" using assms(1) by (auto elim: Ints_cases)
  define e where "e = max (ilog2 \<bar>x\<bar> - int p + 1) emin"
  have r: "round_to p emin x = of_int (rne (x / pow2 e)) * pow2 e"
    using False by (simp add: round_to_def Let_def e_def)
  show ?thesis
  proof (cases "0 \<le> e")
    case True
    then have "pow2 e = real_of_int (2 ^ nat e)" by (rule pow2_nat)
    then show ?thesis unfolding r by simp
  next
    case F: False
    have "x / pow2 e = x * pow2 (0 - e)" by (simp only: pow2_diff pow2_0) simp
    also have "\<dots> = real_of_int (n * 2 ^ nat (- e))" using F by (simp add: n pow2_def)
    finally have q: "x / pow2 e = real_of_int (n * 2 ^ nat (- e))" .
    have "real_of_int (rne (x / pow2 e)) * pow2 e = x / pow2 e * pow2 e"
      unfolding q rne_of_int ..
    then have "round_to p emin x = x" unfolding r by simp
    then show ?thesis using assms(1) by simp
  qed
qed

lemma round_to_abs_le:
  assumes "1 \<le> p" and "\<bar>x\<bar> \<le> of_int m * pow2 k" and "\<bar>m\<bar> \<le> 2 ^ p" and "emin \<le> k"
  shows "\<bar>round_to p emin x\<bar> \<le> of_int m * pow2 k"
proof -
  have e: "round_to p emin (of_int m * pow2 k) = of_int m * pow2 k"
    using assms by (intro round_to_exact) simp_all
  have "x \<le> of_int m * pow2 k" "- (of_int m * pow2 k) \<le> x" using assms(2) by simp_all
  then have "round_to p emin x \<le> round_to p emin (of_int m * pow2 k)"
    "round_to p emin (- (of_int m * pow2 k)) \<le> round_to p emin x"
    using assms(1) by (simp_all add: round_to_mono)
  then show ?thesis unfolding round_to_minus e by simp
qed

subsection \<open>The two formats\<close>

lemma f32_0 [simp]: "f32 0 = 0"
  by (simp add: f32_def)

lemma f64_0 [simp]: "f64 0 = 0"
  by (simp add: f64_def)

lemma f32_minus: "f32 (- x) = - f32 x"
  by (simp add: f32_def round_to_minus)

lemma f64_minus: "f64 (- x) = - f64 x"
  by (simp add: f64_def round_to_minus)

lemma f32_mono: "x \<le> y \<Longrightarrow> f32 x \<le> f32 y"
  by (simp add: f32_def round_to_mono)

lemma f64_mono: "x \<le> y \<Longrightarrow> f64 x \<le> f64 y"
  by (simp add: f64_def round_to_mono)



lemma f32_nonpos: "x \<le> 0 \<Longrightarrow> f32 x \<le> 0"
  by (simp add: f32_def round_to_nonpos)

lemma f64_nonpos: "x \<le> 0 \<Longrightarrow> f64 x \<le> 0"
  by (simp add: f64_def round_to_nonpos)

lemma f32_int: "\<bar>n\<bar> \<le> 2 ^ 24 \<Longrightarrow> f32 (of_int n) = of_int n"
  by (simp add: f32_def round_to_int)

lemma f64_int: "\<bar>n\<bar> \<le> 2 ^ 53 \<Longrightarrow> f64 (of_int n) = of_int n"
  by (simp add: f64_def round_to_int)

lemma f32_idem [simp]: "f32 (f32 x) = f32 x"
  by (simp add: f32_def round_to_idem)

lemma f64_idem [simp]: "f64 (f64 x) = f64 x"
  by (simp add: f64_def round_to_idem)

text \<open>A \<open>float\<close> converted to \<open>double\<close> keeps its value.\<close>

lemma f64_f32 [simp]: "f64 (f32 x) = f32 x"
  by (simp add: f32_def f64_def round_to_idem)

lemma f32_Ints: "x \<in> \<int> \<Longrightarrow> f32 x \<in> \<int>"
  by (simp add: f32_def round_to_Ints)

lemma f64_Ints: "x \<in> \<int> \<Longrightarrow> f64 x \<in> \<int>"
  by (simp add: f64_def round_to_Ints)



text \<open>Rounding an integer keeps it on its side of 0 and of 1.\<close>

lemma f32_ge_1: "1 \<le> x \<Longrightarrow> 1 \<le> f32 x"
  using f32_mono [of 1 x] f32_int [of 1] by simp

lemma f64_ge_1: "1 \<le> x \<Longrightarrow> 1 \<le> f64 x"
  using f64_mono [of 1 x] f64_int [of 1] by simp

lemma f32_abs_le: "\<bar>x\<bar> \<le> of_int n \<Longrightarrow> \<bar>n\<bar> \<le> 2 ^ 24 \<Longrightarrow> \<bar>f32 x\<bar> \<le> of_int n"
  using round_to_abs_le [of 24 x n 0 "- 149"] by (simp add: f32_def)

lemma f32_pow2_le: "\<bar>x\<bar> \<le> 2 ^ n \<Longrightarrow> \<bar>f32 x\<bar> \<le> 2 ^ n"
  using round_to_abs_le [of 24 x 1 "int n" "- 149"] by (simp add: f32_def pow2_def)

subsection \<open>The conversion of an int to float\<close>

lemma to_float_eq_0: "to_float w = 0 \<longleftrightarrow> w = 0"
proof
  assume z: "to_float w = 0"
  show "w = 0"
  proof (rule ccontr)
    assume "w \<noteq> 0"
    then have "sint w \<noteq> 0" by (simp add: signed_eq_0_iff)
    then consider "1 \<le> sint w" | "sint w \<le> - 1" by linarith
    then show False
    proof cases
      case 1
      then have "1 \<le> real_of_int (sint w)" by (simp del: of_int_sint)
      then have "1 \<le> to_float w" unfolding to_float_def by (rule f32_ge_1)
      then show False using z by simp
    next
      case 2
      then have "1 \<le> - real_of_int (sint w)" by (simp del: of_int_sint)
      then have "1 \<le> f32 (- real_of_int (sint w))" by (rule f32_ge_1)
      then show False using z by (simp add: f32_minus to_float_def)
    qed
  qed
next
  assume "w = 0"
  then show "to_float w = 0" by (simp add: to_float_def)
qed

lemma to_float_Ints: "to_float w \<in> \<int>"
  unfolding to_float_def by (rule f32_Ints) (rule Ints_of_int)

lemma to_float_small: "\<bar>sint w\<bar> \<le> 2 ^ 24 \<Longrightarrow> to_float w = real_of_int (sint w)"
  unfolding to_float_def by (rule f32_int)

lemma to_float_abs_le: "\<bar>to_float (w :: i32)\<bar> \<le> 2 ^ 31"
proof -
  have "- (2 ^ 31) \<le> sint w" "sint w < 2 ^ 31"
    using sint_ge [of w] sint_lt [of w] by simp_all
  then have "\<bar>sint w\<bar> \<le> 2 ^ 31" by simp
  then have "real_of_int \<bar>sint w\<bar> \<le> real_of_int (2 ^ 31)" by (simp only: of_int_le_iff)
  then have "\<bar>real_of_int (sint w)\<bar> \<le> 2 ^ 31" by (simp del: of_int_sint)
  then show ?thesis unfolding to_float_def by (rule f32_pow2_le)
qed

text \<open>
  Rules that evaluate a rounding of a numeral or of a quotient of numerals, and
  leave every other rounding as it is.
\<close>

lemma rne_numeral:
  "rne (numeral n) = numeral n" "rne (- numeral n) = - numeral n" "rne 1 = 1" "rne (- 1) = - 1"
  using rne_of_int [of "numeral n"] rne_of_int [of "- numeral n"] rne_of_int [of 1]
    rne_of_int [of "- 1"]
  by simp_all

lemmas ilog2_eval = ilog2.simps [of "numeral n"] ilog2.simps [of "numeral a / numeral b"]
  ilog2.simps [of 1] ilog2.simps [of "1 / numeral b"] for n a b

lemmas round_eval = round_to_def [of p e "numeral n"] round_to_def [of p e "- numeral n"]
  round_to_def [of p e "numeral a / numeral b"] round_to_def [of p e "- (numeral a / numeral b)"]
  round_to_def [of p e 1] round_to_def [of p e "- 1"]
  round_to_def [of p e "1 / numeral b"] round_to_def [of p e "- (1 / numeral b)"] for p e n a b

lemmas rne_eval = rne_numeral rne_def [of "numeral a / numeral b"]
  rne_def [of "- (numeral a / numeral b)"] rne_def [of "1 / numeral b"]
  rne_def [of "- (1 / numeral b)"] for a b

lemmas pow2_eval = pow2_def [of "numeral n"] pow2_def [of "- numeral n"] for n

lemmas fl_eval = f32_def f64_def round_eval ilog2_eval rne_eval pow2_eval

text \<open>The values of the three constants.\<close>

lemma EPS_val: "EPS = 7737125245533627 / 77371252455336267181195264"
  by (simp add: EPS_def fl_eval Let_def)

lemma EPS_bounds: "0 < EPS" "EPS < 1"
  by (simp_all add: EPS_val)


lemma SIGGUESS_val: "SIGGUESS = 5404319552844595 / 4503599627370496"
  by (simp add: SIGGUESS_def fl_eval Let_def)


subsection \<open>Filter generation at concrete widths\<close>













subsection \<open>Filter generation: the tail and the trimmed length\<close>









subsection \<open>atSetFSigma: the parameter check\<close>

text \<open>
  C8. \<open>atSetFSigma\<close> returns \<open>-1\<close> exactly when \<open>sigma \<le> 0\<close> or \<open>sigma > 12\<close>; the
  statics (the three arrays, \<open>sigmagen\<close>, \<open>sig_ncut\<close>) are then the ones it was
  called with. So 12 is accepted, and 0 and 12.01 are refused.
\<close>

theorem atSetFSigma_invalid_parameter:
  "(fst (atSetFSigma sigma K) = - 1 \<longleftrightarrow> sigma \<le> 0 \<or> sigma > 12)
   \<and> (fst (atSetFSigma sigma K) \<noteq> - 1 \<longrightarrow> fst (atSetFSigma sigma K) = 0)
   \<and> (sigma \<le> 0 \<or> sigma > 12 \<longrightarrow> snd (atSetFSigma sigma K) = K)
   \<and> fst (atSetFSigma 12 K) = 0
   \<and> atSetFSigma 0 K = (- 1, K)
   \<and> atSetFSigma 12.01 K = (- 1, K)"
  by (simp add: atSetFSigma_def Let_def)

theorem atSetFSigma_invalid_parameter_witness:
  "((0::real) \<le> 0 \<or> (0::real) > 12)
   \<and> fst (atSetFSigma 0 kernel_init) = - 1
   \<and> snd (atSetFSigma 0 kernel_init) = kernel_init
   \<and> fst (atSetFSigma 12 kernel_init) \<noteq> - 1
   \<and> fst (atSetFSigma 12 kernel_init) = 0"
  using atSetFSigma_invalid_parameter [of 0 kernel_init]
    atSetFSigma_invalid_parameter [of 12 kernel_init]
  by simp

subsection \<open>lgausmom: the totals and the edge test\<close>

lemma sint_shift5:
  fixes w :: i32
  shows "- (2 ^ 26) \<le> sint (signed_drop_bit 5 w)" "sint (signed_drop_bit 5 w) < 2 ^ 26"
proof -
  have b: "- (2 ^ 31) \<le> sint w" "sint w < 2 ^ 31"
    using sint_ge [of w] sint_lt [of w] by simp_all
  have e: "sint (signed_drop_bit 5 w) = sint w div 2 ^ 5"
    by (simp add: sint_signed_drop_bit_eq drop_bit_eq_div)
  show "- (2 ^ 26) \<le> sint (signed_drop_bit 5 w)" using b unfolding e by simp
  show "sint (signed_drop_bit 5 w) < 2 ^ 26" using b unfolding e by simp
qed

lemma sint_i32_eq:
  fixes k :: int
  assumes "- (2 ^ 31) \<le> k" "k < 2 ^ 31"
  shows "sint (word_of_int k :: i32) = k"
  using assms by (simp add: sint_sbintrunc' signed_take_bit_int_eq_self)

text \<open>The numerators of the four moments do not wrap around.\<close>

lemma sint_lin2:
  fixes a b :: i32
  assumes "- (2 ^ 26) \<le> sint a" "sint a < 2 ^ 26" "- (2 ^ 26) \<le> sint b" "sint b < 2 ^ 26"
  shows "sint (2 * a - b) = 2 * sint a - sint b"
proof -
  have "2 * a - b = word_of_int (2 * sint a - sint b)" by simp
  then show ?thesis
    using assms by (simp only: sint_i32_eq) (rule sint_i32_eq; simp)
qed

lemma sint_lin4:
  fixes a b c d :: i32
  assumes "- (2 ^ 26) \<le> sint a" "sint a < 2 ^ 26" "- (2 ^ 26) \<le> sint b" "sint b < 2 ^ 26"
    "- (2 ^ 26) \<le> sint c" "sint c < 2 ^ 26" "- (2 ^ 26) \<le> sint d" "sint d < 2 ^ 26"
  shows "sint (a - 2 * b + c - d) = sint a - 2 * sint b + sint c - sint d"
    and "sint (a + 2 * b + c - d) = sint a + 2 * sint b + sint c - sint d"
proof -
  have "a - 2 * b + c - d = word_of_int (sint a - 2 * sint b + sint c - sint d)" by simp
  then show "sint (a - 2 * b + c - d) = sint a - 2 * sint b + sint c - sint d"
    using assms by (simp only: sint_i32_eq) (rule sint_i32_eq; simp)
  have "a + 2 * b + c - d = word_of_int (sint a + 2 * sint b + sint c - sint d)" by simp
  then show "sint (a + 2 * b + c - d) = sint a + 2 * sint b + sint c - sint d"
    using assms by (simp only: sint_i32_eq) (rule sint_i32_eq; simp)
qed

lemma lg_final_exit: "fst (lg_final s ps) = LG_ZeroIntegral \<or> fst (lg_final s ps) = LG_Done"
  by (cases s) (simp add: lg_final_def Let_def)

lemma lg_final_not_edge: "lg_final s ps \<noteq> (LG_EdgeA, g)" "lg_final s ps \<noteq> (LG_EdgeB, g)"
  using lg_final_exit [of s ps] by auto

lemma lg_final_eq:
  "lg_final (sum0, xysum0, x2sum0, y2sum0) ps =
     (let sum1 = sint (signed_drop_bit 5 sum0);
          x2sum = sint (signed_drop_bit 5 x2sum0);
          y2sum = sint (signed_drop_bit 5 y2sum0);
          xysum = sint (signed_drop_bit 5 xysum0);
          fsum = f32 (real_of_int sum1)
      in if sum1 = 0 then (LG_ZeroIntegral, ps)
         else (LG_Done, ps\<lparr>g_xmom := f32 (f64 (real_of_int (2 * x2sum - sum1) / fsum)),
                 g_ymom := f32 (f64 (real_of_int (2 * y2sum - sum1) / fsum)),
                 g_pmom := f32 (f64 (real_of_int (x2sum - 2 * xysum + y2sum - sum1) / fsum)),
                 g_mmom := f32 (f64 (real_of_int (x2sum + 2 * xysum + y2sum - sum1) / fsum)),
                 g_filval := fsum\<rparr>))"
proof -
  define a where "a = signed_drop_bit 5 x2sum0"
  define b where "b = signed_drop_bit 5 xysum0"
  define c where "c = signed_drop_bit 5 y2sum0"
  define d where "d = signed_drop_bit 5 sum0"
  note bnd = sint_shift5 [of x2sum0] sint_shift5 [of xysum0] sint_shift5 [of y2sum0]
    sint_shift5 [of sum0]
  have lin: "sint (2 * a - d) = 2 * sint a - sint d"
    "sint (2 * c - d) = 2 * sint c - sint d"
    "sint (a - 2 * b + c - d) = sint a - 2 * sint b + sint c - sint d"
    "sint (a + 2 * b + c - d) = sint a + 2 * sint b + sint c - sint d"
    unfolding a_def b_def c_def d_def
    by (intro sint_lin2 sint_lin4 bnd)+
  have z: "to_float d = 0 \<longleftrightarrow> sint d = 0"
    by (simp add: to_float_eq_0 signed_eq_0_iff)
  have "lg_final (sum0, xysum0, x2sum0, y2sum0) ps =
     (if to_float d = 0 then (LG_ZeroIntegral, ps)
      else (LG_Done, ps\<lparr>g_xmom := f32 (f64 (real_of_int (sint (2 * a - d)) / to_float d)),
              g_ymom := f32 (f64 (real_of_int (sint (2 * c - d)) / to_float d)),
              g_pmom := f32 (f64 (real_of_int (sint (a - 2 * b + c - d)) / to_float d)),
              g_mmom := f32 (f64 (real_of_int (sint (a + 2 * b + c - d)) / to_float d)),
              g_filval := to_float d\<rparr>))"
    by (simp add: lg_final_def Let_def a_def b_def c_def d_def del: of_int_sint)
  also have "\<dots> =
     (if sint d = 0 then (LG_ZeroIntegral, ps)
      else (LG_Done, ps\<lparr>g_xmom := f32 (f64 (real_of_int (2 * sint a - sint d) / to_float d)),
              g_ymom := f32 (f64 (real_of_int (2 * sint c - sint d) / to_float d)),
              g_pmom := f32 (f64 (real_of_int (sint a - 2 * sint b + sint c - sint d) / to_float d)),
              g_mmom := f32 (f64 (real_of_int (sint a + 2 * sint b + sint c - sint d) / to_float d)),
              g_filval := to_float d\<rparr>))"
    unfolding lin z ..
  finally show ?thesis
    unfolding Let_def a_def b_def c_def d_def to_float_def .
qed

lemma lg_final_filval:
  assumes "lg_final s ps = (e, g)" and "\<not> lg_status e < 0"
  shows "e = LG_Done" and "g_filval g = to_float (signed_drop_bit 5 (fst s))"
    and "g_filval g \<noteq> 0"
proof -
  obtain a b c d where s: "s = (a, b, c, d)" by (rule prod_cases4)
  from assms(2) show e: "e = LG_Done" by (cases e) auto
  from assms(1) show "g_filval g = to_float (signed_drop_bit 5 (fst s))"
    unfolding s e by (auto simp: lg_final_def Let_def split: if_splits)
  from assms(1) show "g_filval g \<noteq> 0"
    unfolding s e by (auto simp: lg_final_def Let_def split: if_splits)
qed

text \<open>
  C2. With a generated filter, when the assertion and the two row tests pass and no
  read leaves the image, \<open>lgausmom\<close> returns at \<open>if (fsum==0)\<close> exactly when the total
  \<open>sum >> 5\<close> is zero. Otherwise it writes \<open>fsum\<close>, which is the total \<open>sum >> 5\<close> as a
  \<open>float\<close> (the total itself up to \<open>2^24\<close>, the nearest \<open>float\<close> above), and the four
  quotients \<open>(2*x2sum - sum)/fsum\<close>, \<open>(2*y2sum - sum)/fsum\<close>,
  \<open>(x2sum - 2*xysum + y2sum - sum)/fsum\<close>, \<open>(x2sum + 2*xysum + y2sum - sum)/fsum\<close> of the
  totals after the shift by 5 bits, each computed in \<open>double\<close> and rounded to
  \<open>float\<close>; the numerators are the integers written, without wrap-around.
\<close>

theorem lgausmom_finalization:
  assumes "sigmagen K \<noteq> 0" and "1 \<le> sig_ncut K"
    and "int (sig_ncut K) - 1 \<le> y" and "y + int (sig_ncut K) \<le> ysz"
    and "lg_loop K p x y sky (sig_ncut K) 0 (0, 0, 0, 0) = Some (sum0, xysum0, x2sum0, y2sum0)"
  shows "let sum1 = sint (signed_drop_bit 5 sum0);
             x2sum = sint (signed_drop_bit 5 x2sum0);
             y2sum = sint (signed_drop_bit 5 y2sum0);
             xysum = sint (signed_drop_bit 5 xysum0);
             fsum = f32 (real_of_int sum1)
         in (fsum = 0 \<longleftrightarrow> sum1 = 0)
          \<and> (\<bar>sum1\<bar> \<le> 2 ^ 24 \<longrightarrow> fsum = real_of_int sum1)
          \<and> lgausmom K p xsz ysz x y sky ps =
             (if fsum = 0 then Return (LG_ZeroIntegral, ps)
              else Return (LG_Done,
                ps\<lparr>g_xmom := f32 (f64 (real_of_int (2 * x2sum - sum1) / fsum)),
                   g_ymom := f32 (f64 (real_of_int (2 * y2sum - sum1) / fsum)),
                   g_pmom := f32 (f64 (real_of_int (x2sum - 2 * xysum + y2sum - sum1) / fsum)),
                   g_mmom := f32 (f64 (real_of_int (x2sum + 2 * xysum + y2sum - sum1) / fsum)),
                   g_filval := fsum\<rparr>))"
proof -
  have z: "f32 (real_of_int (sint (signed_drop_bit 5 sum0))) = 0
      \<longleftrightarrow> sint (signed_drop_bit 5 sum0) = 0"
    using to_float_eq_0 [of "signed_drop_bit 5 sum0"]
    by (simp add: to_float_def signed_eq_0_iff del: of_int_sint)
  have s: "\<bar>sint (signed_drop_bit 5 sum0)\<bar> \<le> 2 ^ 24
      \<longrightarrow> f32 (real_of_int (sint (signed_drop_bit 5 sum0)))
          = real_of_int (sint (signed_drop_bit 5 sum0))"
    using f32_int [of "sint (signed_drop_bit 5 sum0)"] by (simp del: of_int_sint)
  have "lgausmom K p xsz ysz x y sky ps = Return (lg_final (sum0, xysum0, x2sum0, y2sum0) ps)"
    using assms by (simp add: lgausmom_def)
  then show ?thesis
    unfolding lg_final_eq Let_def using z s by (simp del: of_int_sint)
qed

theorem lgausmom_finalization_witness:
  "sigmagen kernel_eighth \<noteq> 0 \<and> 1 \<le> sig_ncut kernel_eighth
   \<and> int (sig_ncut kernel_eighth) - 1 \<le> 3 \<and> 3 + int (sig_ncut kernel_eighth) \<le> 7
   \<and> lg_loop kernel_eighth hole7 3 3 900 (sig_ncut kernel_eighth) 0 (0, 0, 0, 0)
       = Some (0, 0, - 38400, - 38400)
   \<and> lg_loop kernel_eighth hole7 3 3 0 (sig_ncut kernel_eighth) 0 (0, 0, 0, 0)
       = Some (921600, 0, 76800, 76800)
   \<and> lgausmom kernel_eighth hole7 7 7 3 3 900 gm_zero = Return (LG_ZeroIntegral, gm_zero)
   \<and> lgausmom kernel_eighth hole7 7 7 3 3 0 gm_zero
       = Return (LG_Done, \<lparr>g_xmom = - (13981013 / 16777216), g_ymom = - (13981013 / 16777216),
           g_pmom = - (13981013 / 16777216), g_mmom = - (13981013 / 16777216),
           g_filval = 28800, g_xf = 0, g_yf = 0\<rparr>)"
proof -
  have 1: "sigmagen kernel_eighth \<noteq> 0"
    and 0: "1 \<le> sig_ncut kernel_eighth"
    and 2: "int (sig_ncut kernel_eighth) - 1 \<le> 3"
    and 3: "3 + int (sig_ncut kernel_eighth) \<le> 7"
    by (simp_all add: kernel_eighth_def)
  have 4: "lg_loop kernel_eighth hole7 3 3 900 (sig_ncut kernel_eighth) 0 (0, 0, 0, 0)
       = Some (0, 0, - 38400, - 38400)"
    by (simp add: lg_loop.simps accum_def ring_def pix_def hole7_def kernel_eighth_def tap_def
        pixval_def Let_def)
  have 5: "lg_loop kernel_eighth hole7 3 3 0 (sig_ncut kernel_eighth) 0 (0, 0, 0, 0)
       = Some (921600, 0, 76800, 76800)"
    by (simp add: lg_loop.simps accum_def ring_def pix_def hole7_def kernel_eighth_def tap_def
        pixval_def Let_def)
  have 6: "lgausmom kernel_eighth hole7 7 7 3 3 900 gm_zero = Return (LG_ZeroIntegral, gm_zero)"
    using lgausmom_finalization [OF 1 0 2 3 4, of 7 gm_zero]
    by (simp add: Let_def)
  have 7: "lgausmom kernel_eighth hole7 7 7 3 3 0 gm_zero
       = Return (LG_Done, \<lparr>g_xmom = - (13981013 / 16777216), g_ymom = - (13981013 / 16777216),
           g_pmom = - (13981013 / 16777216), g_mmom = - (13981013 / 16777216),
           g_filval = 28800, g_xf = 0, g_yf = 0\<rparr>)"
    using lgausmom_finalization [OF 1 0 2 3 5, of 7 gm_zero]
    by (simp add: Let_def gm_zero_def fl_eval)
  show ?thesis
    by (intro conjI) (rule 0 1 2 3 4 5 6 7)+
qed

lemma lgausmom_returned_edge:
  assumes "sigmagen K \<noteq> 0"
  shows "returned (lgausmom K p xsz ysz x y sky ps) \<in> {Some LG_EdgeA, Some LG_EdgeB}
           \<longleftrightarrow> y < int (sig_ncut K) - 1 \<or> ysz < y + int (sig_ncut K)"
proof -
  have "returned (lgausmom K p xsz ysz x y sky ps) \<notin> {Some LG_EdgeA, Some LG_EdgeB}"
    if "\<not> (y < int (sig_ncut K) - 1 \<or> ysz < y + int (sig_ncut K))"
    using that assms
    by (auto simp: lgausmom_def returned_def Let_def lg_final_not_edge
        split: option.splits prod.splits)
  moreover have "returned (lgausmom K p xsz ysz x y sky ps) \<in> {Some LG_EdgeA, Some LG_EdgeB}"
    if "y < int (sig_ncut K) - 1 \<or> ysz < y + int (sig_ncut K)"
    using that assms by (auto simp: lgausmom_def returned_def Let_def)
  ultimately show ?thesis by auto
qed

text \<open>
  C3 (as amended). With a generated filter, and with \<open>y + ncut\<close> in the range of
  \<open>int\<close> (so that neither \<open>ncut+y\<close> nor \<open>y+1\<close> overflows), \<open>lgausmom\<close> returns at one of
  its two edge tests exactly when \<open>y < ncut - 1\<close> or \<open>y + ncut > ysz\<close>, that is, when
  one of the rows \<open>y-(ncut-1) .. y+(ncut-1)\<close> that it reads is outside \<open>[0, ysz)\<close>.
  For \<open>ncut \<le> y\<close> and \<open>y + ncut < ysz\<close> it does not return there.
\<close>

theorem lgausmom_edge_test:
  assumes "sigmagen K \<noteq> 0" and "1 \<le> sig_ncut K"
    and "- (2 ^ 31) \<le> y" and "y + int (sig_ncut K) < 2 ^ 31"
  shows "(returned (lgausmom K p xsz ysz x y sky ps) \<in> {Some LG_EdgeA, Some LG_EdgeB}
           \<longleftrightarrow> y < int (sig_ncut K) - 1 \<or> ysz < y + int (sig_ncut K))
       \<and> (int (sig_ncut K) \<le> y \<and> y + int (sig_ncut K) < ysz
           \<longrightarrow> returned (lgausmom K p xsz ysz x y sky ps) \<notin> {Some LG_EdgeA, Some LG_EdgeB})"
  using lgausmom_returned_edge [OF assms(1), of p xsz ysz x y sky ps] by auto

theorem lgausmom_edge_test_witness:
  "sigmagen kernel_eighth \<noteq> 0 \<and> 1 \<le> sig_ncut kernel_eighth
   \<and> - (2 ^ 31) \<le> (3::int) \<and> 3 + int (sig_ncut kernel_eighth) < 2 ^ 31
   \<and> returned (lgausmom kernel_eighth hole7 7 7 3 0 0 gm_zero) = Some LG_EdgeB
   \<and> returned (lgausmom kernel_eighth hole7 7 7 3 6 0 gm_zero) = Some LG_EdgeA
   \<and> int (sig_ncut kernel_eighth) \<le> 3 \<and> 3 + int (sig_ncut kernel_eighth) < 7
   \<and> returned (lgausmom kernel_eighth hole7 7 7 3 3 0 gm_zero) \<notin> {Some LG_EdgeA, Some LG_EdgeB}"
proof -
  have 1: "sigmagen kernel_eighth \<noteq> 0" "1 \<le> sig_ncut kernel_eighth"
    "- (2 ^ 31) \<le> (3::int)" "3 + int (sig_ncut kernel_eighth) < 2 ^ 31"
    by (simp_all add: kernel_eighth_def)
  have 2: "returned (lgausmom kernel_eighth hole7 7 7 3 0 0 gm_zero) = Some LG_EdgeB"
    "returned (lgausmom kernel_eighth hole7 7 7 3 6 0 gm_zero) = Some LG_EdgeA"
    by (simp_all add: lgausmom_def returned_def kernel_eighth_def)
  show ?thesis
    using 1 2 lgausmom_edge_test [OF 1, of hole7 7 7 3 0 gm_zero]
    by (simp add: kernel_eighth_def)
qed

text \<open>
  C3 as stated fails: with \<open>ncut = 2\<close>, \<open>ysz = 3\<close> and \<open>y = 1\<close> both \<open>y < ncut\<close> and
  \<open>y + ncut \<ge> ysz\<close> hold, and the call runs to its end.
\<close>

theorem lgausmom_edge_counterexample:
  "(1::int) < int (sig_ncut kernel_eighth) \<and> (1::int) + int (sig_ncut kernel_eighth) \<ge> 3
   \<and> sigmagen kernel_eighth \<noteq> 0
   \<and> lgausmom kernel_eighth patch3 3 3 1 1 0 gm_zero
      = Return (LG_Done, \<lparr>g_xmom = - (3961287 / 4194304), g_ymom = - (3961287 / 4194304),
          g_pmom = - (3961287 / 4194304), g_mmom = - (3961287 / 4194304), g_filval = 288,
          g_xf = 0, g_yf = 0\<rparr>)"
  by (simp add: lgausmom_def lg_loop.simps lg_final_def accum_def ring_def pix_def patch3_def
      kernel_eighth_def tap_def pixval_def Let_def to_float_def gm_zero_def fl_eval)
subsection \<open>lgausmom: which pixels are read\<close>

lemma pix_wf:
  assumes "wf_image p xsz ysz"
  shows "pix p r c \<noteq> None \<longleftrightarrow> 0 \<le> r \<and> r < ysz \<and> 0 \<le> c \<and> c < xsz"
proof (cases "0 \<le> r \<and> r < ysz")
  case True
  then have "nat r < length p" using assms by (auto simp: wf_image_def)
  then have "p ! nat r \<in> set p" by simp
  then have "int (length (p ! nat r)) = xsz" using assms by (auto simp: wf_image_def)
  then show ?thesis using True assms by (auto simp: pix_def wf_image_def)
next
  case False
  then show ?thesis using assms by (auto simp: pix_def wf_image_def)
qed

lemma pix_wf_ex:
  assumes "wf_image p xsz ysz"
  shows "(\<exists>v. pix p r c = Some v) \<longleftrightarrow> 0 \<le> r \<and> r < ysz \<and> 0 \<le> c \<and> c < xsz"
  using pix_wf [OF assms, of r c] by auto

lemma row0_loop_reads:
  assumes "row0_loop K p x y sky2 ncut n acc = Some r" and "ncut - n \<le> k" and "k < ncut"
  shows "pix p y (x + int k) \<noteq> None \<and> pix p y (x - int k) \<noteq> None"
  using assms
proof (induction n arbitrary: acc)
  case 0
  then show ?case by simp
next
  case (Suc m)
  obtain l lx lx2 where acc: "acc = (l, lx, lx2)" by (rule prod_cases3)
  from Suc.prems(1) obtain pp pm acc' where
    pp: "pix p y (x + int (ncut - Suc m)) = Some pp"
    and pm: "pix p y (x - int (ncut - Suc m)) = Some pm"
    and rest: "row0_loop K p x y sky2 ncut m acc' = Some r"
    unfolding acc by (auto simp: Let_def split: option.splits)
  show ?case
  proof (cases "k = ncut - Suc m")
    case True
    then show ?thesis using pp pm by simp
  next
    case False
    then have "ncut - m \<le> k" using Suc.prems(2,3) by arith
    then show ?thesis using Suc.IH [OF rest _ Suc.prems(3)] by simp
  qed
qed

lemma row0_loop_total:
  assumes "\<And>k. ncut - n \<le> k \<Longrightarrow> k < ncut \<Longrightarrow>
      pix p y (x + int k) \<noteq> None \<and> pix p y (x - int k) \<noteq> None"
    and "n \<le> ncut"
  shows "\<exists>r. row0_loop K p x y sky2 ncut n acc = Some r"
  using assms
proof (induction n arbitrary: acc)
  case 0
  then show ?case by (simp del: split_paired_Ex)
next
  case (Suc m)
  obtain l lx lx2 where acc: "acc = (l, lx, lx2)" by (rule prod_cases3)
  have "ncut - Suc m \<le> ncut - Suc m" "ncut - Suc m < ncut" using Suc.prems(2) by auto
  from Suc.prems(1) [OF this] obtain pp pm where
    pp: "pix p y (x + int (ncut - Suc m)) = Some pp"
    and pm: "pix p y (x - int (ncut - Suc m)) = Some pm" by auto
  have "\<exists>r. row0_loop K p x y sky2 ncut m acc' = Some r" for acc'
    using Suc.prems by (intro Suc.IH) auto
  then show ?case unfolding acc using pp pm by (simp add: Let_def)
qed

lemma rowi_loop_reads:
  assumes "rowi_loop K p x y i sky4 ncut n acc = Some r" and "ncut - n \<le> k" and "k < ncut"
  shows "pix p (y + int i) (x + int k) \<noteq> None \<and> pix p (y + int i) (x - int k) \<noteq> None
    \<and> pix p (y - int i) (x + int k) \<noteq> None \<and> pix p (y - int i) (x - int k) \<noteq> None"
  using assms
proof (induction n arbitrary: acc)
  case 0
  then show ?case by simp
next
  case (Suc m)
  obtain l lx lx2 where acc: "acc = (l, lx, lx2)" by (rule prod_cases3)
  from Suc.prems(1) obtain pp pm mp mm acc' where
    pp: "pix p (y + int i) (x + int (ncut - Suc m)) = Some pp"
    and pm: "pix p (y + int i) (x - int (ncut - Suc m)) = Some pm"
    and mp: "pix p (y - int i) (x + int (ncut - Suc m)) = Some mp"
    and mm: "pix p (y - int i) (x - int (ncut - Suc m)) = Some mm"
    and rest: "rowi_loop K p x y i sky4 ncut m acc' = Some r"
    unfolding acc by (auto simp: Let_def split: option.splits)
  show ?case
  proof (cases "k = ncut - Suc m")
    case True
    then show ?thesis using pp pm mp mm by simp
  next
    case False
    then have "ncut - m \<le> k" using Suc.prems(2,3) by arith
    then show ?thesis using Suc.IH [OF rest _ Suc.prems(3)] by simp
  qed
qed

lemma rowi_loop_total:
  assumes "\<And>k. ncut - n \<le> k \<Longrightarrow> k < ncut \<Longrightarrow>
      pix p (y + int i) (x + int k) \<noteq> None \<and> pix p (y + int i) (x - int k) \<noteq> None
      \<and> pix p (y - int i) (x + int k) \<noteq> None \<and> pix p (y - int i) (x - int k) \<noteq> None"
    and "n \<le> ncut"
  shows "\<exists>r. rowi_loop K p x y i sky4 ncut n acc = Some r"
  using assms
proof (induction n arbitrary: acc)
  case 0
  then show ?case by (simp del: split_paired_Ex)
next
  case (Suc m)
  obtain l lx lx2 where acc: "acc = (l, lx, lx2)" by (rule prod_cases3)
  have "ncut - Suc m \<le> ncut - Suc m" "ncut - Suc m < ncut" using Suc.prems(2) by auto
  from Suc.prems(1) [OF this] obtain pp pm mp mm where
    pp: "pix p (y + int i) (x + int (ncut - Suc m)) = Some pp"
    and pm: "pix p (y + int i) (x - int (ncut - Suc m)) = Some pm"
    and mp: "pix p (y - int i) (x + int (ncut - Suc m)) = Some mp"
    and mm: "pix p (y - int i) (x - int (ncut - Suc m)) = Some mm" by auto
  have "\<exists>r. rowi_loop K p x y i sky4 ncut m acc' = Some r" for acc'
    using Suc.prems by (intro Suc.IH) auto
  then show ?case unfolding acc using pp pm mp mm by (simp add: Let_def)
qed

text \<open>Line \<open>i\<close> reads the columns \<open>x-(ncut-1) .. x+(ncut-1)\<close> of the rows \<open>y+i\<close> and \<open>y-i\<close>.\<close>

lemma ring_reads:
  assumes "ring K p x y sky ncut i = Some r" and "k < ncut"
  shows "pix p (y + int i) (x + int k) \<noteq> None \<and> pix p (y + int i) (x - int k) \<noteq> None
    \<and> pix p (y - int i) (x + int k) \<noteq> None \<and> pix p (y - int i) (x - int k) \<noteq> None"
proof (cases "k = 0")
  case True
  then show ?thesis using assms(1)
    by (auto simp: ring_def Let_def split: if_splits option.splits)
next
  case False
  then have k: "ncut - (ncut - 1) \<le> k" using assms(2) by arith
  show ?thesis
  proof (cases "i = 0")
    case True
    then obtain acc where "row0_loop K p x y (2 * sky) ncut (ncut - 1) acc = Some r"
      using assms(1) by (auto simp: ring_def Let_def split: option.splits)
    from row0_loop_reads [OF this k assms(2)] show ?thesis using True by simp
  next
    case False
    then obtain acc where "rowi_loop K p x y i (4 * sky) ncut (ncut - 1) acc = Some r"
      using assms(1) by (auto simp: ring_def Let_def split: option.splits)
    from rowi_loop_reads [OF this k assms(2)] show ?thesis .
  qed
qed

lemma ring_total:
  assumes "\<And>k. k < ncut \<Longrightarrow>
      pix p (y + int i) (x + int k) \<noteq> None \<and> pix p (y + int i) (x - int k) \<noteq> None
      \<and> pix p (y - int i) (x + int k) \<noteq> None \<and> pix p (y - int i) (x - int k) \<noteq> None"
    and "0 < ncut"
  shows "\<exists>r. ring K p x y sky ncut i = Some r"
proof -
  from assms(1) [OF assms(2)] obtain a b where
    a: "pix p (y + int i) x = Some a" and b: "pix p (y - int i) x = Some b" by auto
  show ?thesis
  proof (cases "i = 0")
    case True
    have "\<exists>r. row0_loop K p x y (2 * sky) ncut (ncut - 1) acc = Some r" for acc
      using assms(1) True by (intro row0_loop_total) auto
    then show ?thesis using True a by (simp add: ring_def Let_def)
  next
    case False
    have "\<exists>r. rowi_loop K p x y i (4 * sky) ncut (ncut - 1) acc = Some r" for acc
      using assms(1) by (intro rowi_loop_total) auto
    then show ?thesis using False a b by (simp add: ring_def Let_def)
  qed
qed

lemma lg_loop_reads:
  assumes "lg_loop K p x y sky ncut i s = Some r" and "i \<le> j" and "j < ncut"
  shows "\<exists>l. ring K p x y sky ncut j = Some l"
  using assms
proof (induction K p x y sky ncut i s rule: lg_loop.induct)
  case (1 K p x y sky ncut i s)
  from "1.prems" have lt: "i < ncut" by simp
  from "1.prems"(1) lt obtain l where
    l: "ring K p x y sky ncut i = Some l"
    and rest: "lg_loop K p x y sky ncut (Suc i) (accum K i l s) = Some r"
    by (subst (asm) lg_loop.simps) (auto split: option.splits)
  show ?case
  proof (cases "j = i")
    case True
    then show ?thesis using l by blast
  next
    case False
    then have "Suc i \<le> j" using "1.prems"(2) by simp
    from "1.IH" [OF lt l rest this "1.prems"(3)] show ?thesis .
  qed
qed

lemma lg_loop_total:
  assumes "\<And>j. i \<le> j \<Longrightarrow> j < ncut \<Longrightarrow> \<exists>l. ring K p x y sky ncut j = Some l"
  shows "\<exists>r. lg_loop K p x y sky ncut i s = Some r"
  using assms
proof (induction K p x y sky ncut i s rule: lg_loop.induct)
  case (1 K p x y sky ncut i s)
  show ?case
  proof (cases "i < ncut")
    case True
    from "1.prems" [OF _ True] obtain l where l: "ring K p x y sky ncut i = Some l" by auto
    have "\<exists>r. lg_loop K p x y sky ncut (Suc i) (accum K i l s) = Some r"
      using "1.prems" by (intro "1.IH" [OF True l]) auto
    then show ?thesis using True l by (subst lg_loop.simps) simp
  next
    case False
    then show ?thesis by (subst lg_loop.simps) (simp del: split_paired_Ex)
  qed
qed

text \<open>
  With an image of the announced extents and a row \<open>y\<close> that passes the two tests of
  \<open>lgausmom\<close>, the loop reads outside the image exactly when a column of
  \<open>x-(ncut-1) .. x+(ncut-1)\<close> is outside \<open>[0, xsz)\<close>.
\<close>

lemma lg_loop_fault_iff:
  assumes wf: "wf_image p xsz ysz" and n: "1 \<le> ncut"
    and y: "int ncut - 1 \<le> y" "y + int ncut \<le> ysz"
  shows "lg_loop K p x y sky ncut 0 s = None \<longleftrightarrow> x < int ncut - 1 \<or> x > xsz - int ncut"
proof
  assume none: "lg_loop K p x y sky ncut 0 s = None"
  show "x < int ncut - 1 \<or> x > xsz - int ncut"
  proof (rule ccontr)
    assume "\<not> ?thesis"
    then have x: "int ncut - 1 \<le> x" "x + int ncut \<le> xsz" by auto
    have "\<exists>l. ring K p x y sky ncut j = Some l" if "j < ncut" for j
      using that n x y by (intro ring_total) (auto simp: pix_wf_ex [OF wf])
    then have "\<exists>r. lg_loop K p x y sky ncut 0 s = Some r" by (intro lg_loop_total) auto
    then show False using none by simp
  qed
next
  assume x: "x < int ncut - 1 \<or> x > xsz - int ncut"
  show "lg_loop K p x y sky ncut 0 s = None"
  proof (rule ccontr)
    assume "\<not> ?thesis"
    then obtain r where "lg_loop K p x y sky ncut 0 s = Some r" by auto
    from lg_loop_reads [OF this, of 0] n obtain l where "ring K p x y sky ncut 0 = Some l"
      by auto
    from ring_reads [OF this, of "ncut - 1"] n
    have "pix p y (x + int (ncut - 1)) \<noteq> None" "pix p y (x - int (ncut - 1)) \<noteq> None"
      by auto
    then have "0 \<le> x - int (ncut - 1)" "x + int (ncut - 1) < xsz"
      unfolding pix_wf [OF wf] by simp_all
    then show False using x n by auto
  qed
qed

text \<open>
  C9. \<open>lgausmom\<close> tests the row \<open>y\<close> only. With a generated filter, an image of the
  announced extents and a row that passes the tests, the call reads outside the image
  (columns \<open>x-(ncut-1) .. x+(ncut-1)\<close> of a row) exactly when \<open>x < ncut-1\<close> or
  \<open>x > xsz-ncut\<close>; it never returns at an edge test for such an \<open>x\<close>, and \<open>xsz\<close> has no
  influence on the call. \<open>atFindFocMom\<close> has its own test of the column and returns
  before it calls \<open>lgausmom\<close>.
\<close>

theorem lgausmom_no_column_check:
  assumes "sigmagen K \<noteq> 0" and "1 \<le> sig_ncut K" and "wf_image p xsz ysz"
    and "int (sig_ncut K) - 1 \<le> y" and "y + int (sig_ncut K) \<le> ysz"
  shows "(lgausmom K p xsz ysz x y sky ps = MemFault
            \<longleftrightarrow> x < int (sig_ncut K) - 1 \<or> x > xsz - int (sig_ncut K))
       \<and> lgausmom K p xsz' ysz x y sky ps = lgausmom K p xsz ysz x y sky ps
       \<and> returned (lgausmom K p xsz ysz x y sky ps) \<notin> {Some LG_EdgeA, Some LG_EdgeB}
       \<and> (x < int (sig_ncut K) \<or> x > xsz - int (sig_ncut K) - 1
            \<longrightarrow> atFindFocMom K p xsz ysz x y sky ps = Return (FF_TooCloseToEdge, ps))"
proof -
  have "lgausmom K p xsz ysz x y sky ps = MemFault
      \<longleftrightarrow> lg_loop K p x y sky (sig_ncut K) 0 (0, 0, 0, 0) = None"
    using assms by (auto simp: lgausmom_def split: option.splits)
  also have "\<dots> \<longleftrightarrow> x < int (sig_ncut K) - 1 \<or> x > xsz - int (sig_ncut K)"
    using assms by (intro lg_loop_fault_iff) auto
  finally have 1: "lgausmom K p xsz ysz x y sky ps = MemFault
      \<longleftrightarrow> x < int (sig_ncut K) - 1 \<or> x > xsz - int (sig_ncut K)" .
  have 2: "lgausmom K p xsz' ysz x y sky ps = lgausmom K p xsz ysz x y sky ps"
    by (simp add: lgausmom_def)
  have 3: "returned (lgausmom K p xsz ysz x y sky ps) \<notin> {Some LG_EdgeA, Some LG_EdgeB}"
    using assms lgausmom_returned_edge [of K p xsz ysz x y sky ps] by auto
  have 4: "atFindFocMom K p xsz ysz x y sky ps = Return (FF_TooCloseToEdge, ps)"
    if "x < int (sig_ncut K) \<or> x > xsz - int (sig_ncut K) - 1"
    using that by (auto simp: atFindFocMom_def ffm_start.simps FINDERR_def)
  show ?thesis using 1 2 3 4 by blast
qed

theorem lgausmom_no_column_check_witness:
  "sigmagen kernel_eighth \<noteq> 0 \<and> 1 \<le> sig_ncut kernel_eighth \<and> wf_image hole7 7 7
   \<and> int (sig_ncut kernel_eighth) - 1 \<le> 3 \<and> 3 + int (sig_ncut kernel_eighth) \<le> 7
   \<and> (0::int) < int (sig_ncut kernel_eighth) - 1
   \<and> lgausmom kernel_eighth hole7 7 7 0 3 0 gm_zero = MemFault
   \<and> atFindFocMom kernel_eighth hole7 7 7 0 3 0 gm_zero = Return (FF_TooCloseToEdge, gm_zero)"
proof -
  have 1: "sigmagen kernel_eighth \<noteq> 0" and 2: "1 \<le> sig_ncut kernel_eighth"
    and 4: "int (sig_ncut kernel_eighth) - 1 \<le> 3"
    and 5: "3 + int (sig_ncut kernel_eighth) \<le> 7"
    and 6: "(0::int) < int (sig_ncut kernel_eighth) - 1"
    by (simp_all add: kernel_eighth_def)
  have 3: "wf_image hole7 7 7" by (simp add: wf_image_def hole7_def)
  from lgausmom_no_column_check [OF 1 2 3 4 5, of 0 0 gm_zero] 6
  have 7: "lgausmom kernel_eighth hole7 7 7 0 3 0 gm_zero = MemFault"
    and 8: "atFindFocMom kernel_eighth hole7 7 7 0 3 0 gm_zero
      = Return (FF_TooCloseToEdge, gm_zero)"
    by simp_all
  show ?thesis by (intro conjI) (rule 1 2 3 4 5 6 7 8)+
qed

subsection \<open>lgausmom: the antisymmetric sum of the central line\<close>

text \<open>
  C5. For the central line the code computes
  \<open>lxsum += ((*lptrpp) - (*lptrpm) - sky2) * xfgarray[ncut-n]\<close>: twice the sky is taken
  off the difference of the two pixels. With the filter of sigma = 0.125
  (\<open>xfgarray[1] = 4\<close>) and the row \<open>2, 9, 2\<close> the difference of the pixels at \<open>x+1\<close> and
  \<open>x-1\<close> is 0; the code's \<open>lxsum\<close> is 0 for \<open>sky = 0\<close> and \<open>-8\<close> for \<open>sky = 1\<close>.
\<close>

theorem ring_central_lxsum_sky:
  "ring kernel_eighth patch3 1 1 0 2 0 = Some (4608, 0, 128)
   \<and> ring kernel_eighth patch3 1 1 1 2 0 = Some (4096, - 8, 64)
   \<and> pix patch3 1 (1 + 1) = Some 2 \<and> pix patch3 1 (1 - 1) = Some 2
   \<and> tap (xfgarray kernel_eighth) 1 = 4"
  by (simp add: ring_def pix_def patch3_def kernel_eighth_def tap_def pixval_def Let_def)

subsection \<open>atFindFocMom: the scan of the neighbours\<close>

lemma lgausmom_filval_at:
  assumes "lgausmom K p xsz ysz x y sky ps = Return (e, g)" and "\<not> lg_status e < 0"
  shows "filval_at K p xsz ysz x y sky = Some (g_filval g)"
proof -
  from assms(2) have e: "e = LG_Done" by (cases e) auto
  from assms(1) obtain s where s: "lg_loop K p x y sky (sig_ncut K) 0 (0, 0, 0, 0) = Some s"
    and g: "lg_final s ps = (LG_Done, g)"
    and c: "sigmagen K \<noteq> 0" "\<not> int (sig_ncut K) + y > ysz" "\<not> int (sig_ncut K) > y + 1"
    unfolding e by (auto simp: lgausmom_def Let_def split: if_splits option.splits)
  obtain a b c' d where sd: "s = (a, b, c', d)" by (rule prod_cases4)
  from g have "lg_final s gm_zero = (LG_Done, snd (lg_final s gm_zero))
      \<and> g_filval (snd (lg_final s gm_zero)) = g_filval g"
    unfolding sd by (auto simp: lg_final_def Let_def split: if_splits)
  then show ?thesis using s c
    by (auto simp: filval_at_def lgausmom_def Let_def split: prod.splits)
qed

lemma neighbours_props:
  "distinct (map (\<lambda>(i, j). 3 * i + j) neighbours)"
  "\<forall>(i, j) \<in> set neighbours. i < 3 \<and> j < 3 \<and> 3 * i + j \<noteq> 4"
  by (simp_all add: neighbours_def)

lemma scan_Done:
  assumes "scan K p xsz ysz x y sky vc rest sq = Return (Scan_Done sq1)"
    and "distinct (map (\<lambda>(i, j). 3 * i + j) rest)"
    and "\<forall>(i, j) \<in> set rest. 3 * i + j < length sq"
  shows "length sq1 = length sq
    \<and> (\<forall>k. k \<notin> (\<lambda>(i, j). 3 * i + j) ` set rest \<longrightarrow> sq1 ! k = sq ! k)
    \<and> (\<forall>(i, j) \<in> set rest.
          filval_at K p xsz ysz (x + int j - 1) (y + int i - 1) sky
            = Some (g_filval (sq1 ! (3 * i + j)))
          \<and> g_filval (sq1 ! (3 * i + j)) \<le> vc)"
  using assms
proof (induction rest arbitrary: sq)
  case Nil
  then show ?case by simp
next
  case (Cons ij rest)
  obtain i j where ij: "ij = (i, j)" by (cases ij) auto
  from Cons.prems(1) obtain e g where
    lg: "lgausmom K p xsz ysz (x + int j - 1) (y + int i - 1) sky (val sq i j) = Return (e, g)"
    and ok: "\<not> lg_status e < 0" and le: "\<not> g_filval g > vc"
    and rest: "scan K p xsz ysz x y sky vc rest (sq[3 * i + j := g]) = Return (Scan_Done sq1)"
    unfolding ij by (auto simp: Let_def split: outcome.splits prod.splits if_splits)
  have d: "distinct (map (\<lambda>(i, j). 3 * i + j) rest)"
    and notin: "3 * i + j \<notin> (\<lambda>(i, j). 3 * i + j) ` set rest"
    using Cons.prems(2) unfolding ij by auto
  have len: "\<forall>(a, b) \<in> set rest. 3 * a + b < length (sq[3 * i + j := g])"
    using Cons.prems(3) by auto
  have lt: "3 * i + j < length sq" using Cons.prems(3) unfolding ij by auto
  note IH = Cons.IH [OF rest d len]
  have here: "sq1 ! (3 * i + j) = g" using IH notin lt by simp
  have fv: "filval_at K p xsz ysz (x + int j - 1) (y + int i - 1) sky = Some (g_filval g)"
    using lgausmom_filval_at [OF lg ok] .
  have 1: "length sq1 = length sq" using IH by simp
  have 2: "\<forall>k. k \<notin> (\<lambda>(i, j). 3 * i + j) ` set (ij # rest) \<longrightarrow> sq1 ! k = sq ! k"
    using IH unfolding ij by auto
  have 3: "\<forall>(i, j) \<in> set (ij # rest).
          filval_at K p xsz ysz (x + int j - 1) (y + int i - 1) sky
            = Some (g_filval (sq1 ! (3 * i + j)))
          \<and> g_filval (sq1 ! (3 * i + j)) \<le> vc"
    using IH here fv le unfolding ij by auto
  show ?case using 1 2 3 by blast
qed

lemma scan_Moved:
  assumes "scan K p xsz ysz x y sky vc rest sq = Return (Scan_Moved sq1 x1 y1)"
    and "\<forall>(i, j) \<in> set rest. i < 3 \<and> j < 3 \<and> 3 * i + j \<noteq> 4"
  shows "length sq1 = length sq \<and> (x1, y1) \<noteq> (x, y) \<and> \<bar>x1 - x\<bar> \<le> 1 \<and> \<bar>y1 - y\<bar> \<le> 1
    \<and> (\<exists>v. filval_at K p xsz ysz x1 y1 sky = Some v \<and> v > vc)"
  using assms
proof (induction rest arbitrary: sq)
  case Nil
  then show ?case by simp
next
  case (Cons ij rest)
  obtain i j where ij: "ij = (i, j)" by (cases ij) auto
  from Cons.prems(1) obtain e g where
    lg: "lgausmom K p xsz ysz (x + int j - 1) (y + int i - 1) sky (val sq i j) = Return (e, g)"
    and ok: "\<not> lg_status e < 0"
    and alt: "(g_filval g > vc \<and> sq1 = sq[3 * i + j := g] \<and> x1 = x + (int j - 1)
        \<and> y1 = y + (int i - 1))
      \<or> (\<not> g_filval g > vc
        \<and> scan K p xsz ysz x y sky vc rest (sq[3 * i + j := g]) = Return (Scan_Moved sq1 x1 y1))"
    unfolding ij by (auto simp: Let_def split: outcome.splits prod.splits if_splits)
  have fv: "filval_at K p xsz ysz (x + int j - 1) (y + int i - 1) sky = Some (g_filval g)"
    using lgausmom_filval_at [OF lg ok] .
  have b: "i < 3" "j < 3" "3 * i + j \<noteq> 4" using Cons.prems(2) unfolding ij by auto
  from alt show ?case
  proof
    assume a: "g_filval g > vc \<and> sq1 = sq[3 * i + j := g] \<and> x1 = x + (int j - 1)
        \<and> y1 = y + (int i - 1)"
    have "(x1, y1) \<noteq> (x, y)" using a b by auto
    moreover have "\<bar>x1 - x\<bar> \<le> 1" "\<bar>y1 - y\<bar> \<le> 1" using a b by auto
    moreover have "x1 = x + int j - 1" "y1 = y + int i - 1" using a by auto
    then have "filval_at K p xsz ysz x1 y1 sky = Some (g_filval g)"
      using fv by simp
    ultimately show ?thesis using a by auto
  next
    assume a: "\<not> g_filval g > vc
        \<and> scan K p xsz ysz x y sky vc rest (sq[3 * i + j := g]) = Return (Scan_Moved sq1 x1 y1)"
    have "\<forall>(i, j) \<in> set rest. i < 3 \<and> j < 3 \<and> 3 * i + j \<noteq> 4" using Cons.prems(2) by auto
    from Cons.IH [OF conjunct2 [OF a] this] show ?thesis by simp
  qed
qed

lemma local_maxI:
  assumes lg: "lgausmom K p xsz ysz x y sky (val sq 1 1) = Return (e, g)"
    and ok: "\<not> lg_status e < 0"
    and sc: "scan K p xsz ysz x y sky (g_filval g) neighbours (sq[4 := g]) = Return (Scan_Done sq1)"
    and len: "length sq = 9"
  shows "local_max K p xsz ysz sky x y sq1"
proof -
  have l: "\<forall>(i, j) \<in> set neighbours. 3 * i + j < length (sq[4 := g])"
    using len by (simp add: neighbours_def)
  note D = scan_Done [OF sc neighbours_props(1) l]
  have len1: "length sq1 = 9" using D len by simp
  have "4 \<notin> (\<lambda>(i, j). 3 * i + j) ` set neighbours" by (simp add: neighbours_def)
  then have c: "sq1 ! 4 = g" using D len by simp
  have fc: "filval_at K p xsz ysz x y sky = Some (g_filval g)"
    using lgausmom_filval_at [OF lg ok] .
  have nb: "filval_at K p xsz ysz (x + int j - 1) (y + int i - 1) sky
            = Some (g_filval (sq1 ! (3 * i + j)))
          \<and> g_filval (sq1 ! (3 * i + j)) \<le> g_filval g"
    if "(i, j) \<in> set neighbours" for i j
    using D that by auto
  have "filval_at K p xsz ysz (x + int j - 1) (y + int i - 1) sky
            = Some (g_filval (val sq1 i j))
          \<and> g_filval (val sq1 i j) \<le> g_filval (val sq1 1 1)"
    if "i < 3" "j < 3" for i j
  proof (cases "i = 1 \<and> j = 1")
    case True
    then show ?thesis using fc c by (simp add: val_def)
  next
    case False
    have "i = 0 \<or> i = 1 \<or> i = 2" "j = 0 \<or> j = 1 \<or> j = 2" using that by auto
    then have "(i, j) \<in> set neighbours" using False by (auto simp: neighbours_def)
    from nb [OF this] show ?thesis using c by (simp add: val_def)
  qed
  then show ?thesis using len1 by (simp add: local_max_def)
qed

subsection \<open>atFindFocMom: the passes\<close>

lemma ffm_start_unfold:
  "ffm_start K p xsz ysz sky ps sq ret x y =
     (if ret \<ge> FINDERR then Return (FF_TooManyTries, ps)
      else
        (case attempt K p xsz ysz sky sq x y of
           AssertFail \<Rightarrow> AssertFail
         | MemFault \<Rightarrow> MemFault
         | Return A_Edge \<Rightarrow> Return (FF_TooCloseToEdge, ps)
         | Return A_Error \<Rightarrow> Return (FF_MomentError, ps)
         | Return (A_Moved sq1 x1 y1) \<Rightarrow> ffm_start K p xsz ysz sky ps sq1 (ret + 1) x1 y1
         | Return (A_Max sq1) \<Rightarrow> Return (interpolate sq1 x y ret ps)))"
  by (subst ffm_start.simps)
    (simp add: attempt_def near_edge_def Let_def
      split: outcome.splits prod.splits scan_exit.splits)

lemma relocated_snoc:
  assumes "relocated K p xsz ysz sky n st = Some (sq', x', y')"
    and "attempt K p xsz ysz sky sq' x' y' = Return (A_Moved sq1 x1 y1)"
  shows "relocated K p xsz ysz sky (Suc n) st = Some (sq1, x1, y1)"
  using assms
proof (induction n arbitrary: st)
  case 0
  then show ?case by simp
next
  case (Suc n)
  obtain sq x y where st: "st = (sq, x, y)" by (rule prod_cases3)
  from Suc.prems(1) obtain sq2 x2 y2 where
    a: "attempt K p xsz ysz sky sq x y = Return (A_Moved sq2 x2 y2)"
    and r: "relocated K p xsz ysz sky n (sq2, x2, y2) = Some (sq', x', y')"
    unfolding st by (auto split: outcome.splits attempt_exit.splits)
  from Suc.IH [OF r Suc.prems(2)] show ?case unfolding st using a by simp
qed

lemma ffm_start_relocated:
  assumes "relocated K p xsz ysz sky n (sq, x, y) = Some (sq', xc, yc)"
    and "ret + int n \<le> FINDERR"
  shows "ffm_start K p xsz ysz sky ps sq ret x y
    = ffm_start K p xsz ysz sky ps sq' (ret + int n) xc yc"
  using assms
proof (induction n arbitrary: sq x y ret)
  case 0
  then show ?case by simp
next
  case (Suc n)
  from Suc.prems(1) obtain sq2 x2 y2 where
    a: "attempt K p xsz ysz sky sq x y = Return (A_Moved sq2 x2 y2)"
    and r: "relocated K p xsz ysz sky n (sq2, x2, y2) = Some (sq', xc, yc)"
    by (auto split: outcome.splits attempt_exit.splits)
  have lt: "\<not> ret \<ge> FINDERR" using Suc.prems(2) by simp
  have "ffm_start K p xsz ysz sky ps sq ret x y
      = ffm_start K p xsz ysz sky ps sq2 (ret + 1) x2 y2"
    by (subst ffm_start_unfold) (simp add: lt a)
  also have "\<dots> = ffm_start K p xsz ysz sky ps sq' (ret + 1 + int n) xc yc"
    using Suc.prems(2) by (intro Suc.IH [OF r]) simp
  finally show ?case by (simp add: add.commute add.left_commute)
qed

lemma ffm_start_path:
  assumes "ffm_start K p xsz ysz sky ps sq ret x y = Return res"
  shows "\<exists>n sq' xc yc. relocated K p xsz ysz sky n (sq, x, y) = Some (sq', xc, yc)
    \<and> last_attempt K p xsz ysz sky ps (ret + int n) sq' xc yc res
    \<and> (n > 0 \<longrightarrow> ret + int n \<le> FINDERR)"
  using assms
proof (induction "nat (FINDERR - ret)" arbitrary: ret sq x y)
  case 0
  then have "FINDERR \<le> ret" by simp
  then have "res = (FF_TooManyTries, ps)"
    using "0.prems" by (subst (asm) ffm_start_unfold) simp
  then have "last_attempt K p xsz ysz sky ps (ret + int 0) sq x y res"
    using \<open>FINDERR \<le> ret\<close> by (simp add: last_attempt_def)
  moreover have "relocated K p xsz ysz sky 0 (sq, x, y) = Some (sq, x, y)" by simp
  ultimately show ?case by blast
next
  case (Suc k)
  then have lt: "ret < FINDERR" by simp
  have stop: ?case if "last_attempt K p xsz ysz sky ps ret sq x y res"
  proof -
    have "last_attempt K p xsz ysz sky ps (ret + int 0) sq x y res" using that by simp
    moreover have "relocated K p xsz ysz sky 0 (sq, x, y) = Some (sq, x, y)" by simp
    ultimately show ?thesis by blast
  qed
  note unf = Suc.prems [unfolded ffm_start_unfold [of K p xsz ysz sky ps sq ret x y]]
  show ?case
  proof (cases "attempt K p xsz ysz sky sq x y")
    case AssertFail
    then show ?thesis using unf lt by simp
  next
    case MemFault
    then show ?thesis using unf lt by simp
  next
    case (Return a)
    show ?thesis
    proof (cases a)
      case A_Edge
      then have "res = (FF_TooCloseToEdge, ps)" using unf lt Return by simp
      then show ?thesis using lt Return A_Edge by (intro stop) (simp add: last_attempt_def)
    next
      case A_Error
      then have "res = (FF_MomentError, ps)" using unf lt Return by simp
      then show ?thesis using lt Return A_Error by (intro stop) (simp add: last_attempt_def)
    next
      case (A_Moved sq1 x1 y1)
      then have rec: "ffm_start K p xsz ysz sky ps sq1 (ret + 1) x1 y1 = Return res"
        using unf lt Return by simp
      have k: "k = nat (FINDERR - (ret + 1))" using Suc.hyps(2) by simp
      from Suc.hyps(1) [OF k rec] obtain n sq' xc yc where
        r: "relocated K p xsz ysz sky n (sq1, x1, y1) = Some (sq', xc, yc)"
        and la: "last_attempt K p xsz ysz sky ps (ret + 1 + int n) sq' xc yc res"
        and b: "n > 0 \<longrightarrow> ret + 1 + int n \<le> FINDERR"
        by blast
      have "relocated K p xsz ysz sky (Suc n) (sq, x, y) = Some (sq', xc, yc)"
        using r Return A_Moved by simp
      moreover have "last_attempt K p xsz ysz sky ps (ret + int (Suc n)) sq' xc yc res"
        using la by (simp add: add.commute add.left_commute)
      moreover have "ret + int (Suc n) \<le> FINDERR" using b lt by (cases "n > 0") auto
      ultimately show ?thesis by blast
    next
      case (A_Max sq1)
      then have "res = interpolate sq1 x y ret ps" using unf lt Return by simp
      then show ?thesis using lt Return A_Max by (intro stop) (simp add: last_attempt_def)
    qed
  qed
qed

lemma attempt_Moved:
  assumes "attempt K p xsz ysz sky sq x y = Return (A_Moved sq1 x1 y1)"
  shows "length sq1 = length sq" and "\<not> near_edge K xsz ysz x y"
    and "(x1, y1) \<noteq> (x, y)" and "\<bar>x1 - x\<bar> \<le> 1" and "\<bar>y1 - y\<bar> \<le> 1"
    and "\<exists>vc v. filval_at K p xsz ysz x y sky = Some vc
          \<and> filval_at K p xsz ysz x1 y1 sky = Some v \<and> v > vc"
proof -
  from assms show ne: "\<not> near_edge K xsz ysz x y"
    by (auto simp: attempt_def split: if_splits)
  from assms ne obtain e g where
    lg: "lgausmom K p xsz ysz x y sky (val sq 1 1) = Return (e, g)"
    and ok: "\<not> lg_status e < 0"
    and sc: "scan K p xsz ysz x y sky (g_filval g) neighbours (sq[4 := g])
      = Return (Scan_Moved sq1 x1 y1)"
    by (auto simp: attempt_def split: if_splits outcome.splits scan_exit.splits)
  note M = scan_Moved [OF sc neighbours_props(2)]
  show "length sq1 = length sq" using M by simp
  show "(x1, y1) \<noteq> (x, y)" "\<bar>x1 - x\<bar> \<le> 1" "\<bar>y1 - y\<bar> \<le> 1" using M by simp_all
  have "filval_at K p xsz ysz x y sky = Some (g_filval g)"
    using lgausmom_filval_at [OF lg ok] .
  then show "\<exists>vc v. filval_at K p xsz ysz x y sky = Some vc
          \<and> filval_at K p xsz ysz x1 y1 sky = Some v \<and> v > vc"
    using M by auto
qed

lemma attempt_Max:
  assumes "attempt K p xsz ysz sky sq x y = Return (A_Max sq1)" and "length sq = 9"
  shows "local_max K p xsz ysz sky x y sq1" and "\<not> near_edge K xsz ysz x y"
proof -
  from assms(1) show ne: "\<not> near_edge K xsz ysz x y"
    by (auto simp: attempt_def split: if_splits)
  from assms(1) ne obtain e g where
    lg: "lgausmom K p xsz ysz x y sky (val sq 1 1) = Return (e, g)"
    and ok: "\<not> lg_status e < 0"
    and sc: "scan K p xsz ysz x y sky (g_filval g) neighbours (sq[4 := g])
      = Return (Scan_Done sq1)"
    by (auto simp: attempt_def split: if_splits outcome.splits scan_exit.splits)
  show "local_max K p xsz ysz sky x y sq1"
    using local_maxI [OF lg ok sc assms(2)] .
qed

lemma relocated_length:
  assumes "relocated K p xsz ysz sky n (sq, x, y) = Some (sq', x', y')"
  shows "length sq' = length sq"
  using assms
proof (induction n arbitrary: sq x y)
  case 0
  then show ?case by simp
next
  case (Suc n)
  from Suc.prems obtain sq2 x2 y2 where
    a: "attempt K p xsz ysz sky sq x y = Return (A_Moved sq2 x2 y2)"
    and r: "relocated K p xsz ysz sky n (sq2, x2, y2) = Some (sq', x', y')"
    by (auto split: outcome.splits attempt_exit.splits)
  show ?case using Suc.IH [OF r] attempt_Moved(1) [OF a] by simp
qed

lemma last_attempt_exit:
  assumes "last_attempt K p xsz ysz sky ps r sq xc yc (e, ps')"
  shows "e = FF_TooManyTries \<longrightarrow> r \<ge> FINDERR"
    and "e = FF_Found k \<longrightarrow> k = r \<and> r < FINDERR
      \<and> (\<exists>sq1. attempt K p xsz ysz sky sq xc yc = Return (A_Max sq1)
            \<and> interpolate sq1 xc yc r ps = (FF_Found k, ps'))"
    and "e = FF_FlatPeak \<longrightarrow> r < FINDERR
      \<and> (\<exists>sq1. attempt K p xsz ysz sky sq xc yc = Return (A_Max sq1)
            \<and> interpolate sq1 xc yc r ps = (FF_FlatPeak, ps'))"
proof -
  have i: "fst (interpolate sq1 xc yc r ps) = FF_FlatPeak
      \<or> fst (interpolate sq1 xc yc r ps) = FF_Found r" for sq1
    by (simp add: interpolate_def Let_def)
  consider "r \<ge> FINDERR" "e = FF_TooManyTries"
    | "r < FINDERR" "e = FF_TooCloseToEdge"
    | "r < FINDERR" "e = FF_MomentError"
    | sq1 where "r < FINDERR" "attempt K p xsz ysz sky sq xc yc = Return (A_Max sq1)"
        "interpolate sq1 xc yc r ps = (e, ps')"
    using assms unfolding last_attempt_def by (elim disjE conjE exE) simp_all
  then have "(e = FF_TooManyTries \<longrightarrow> r \<ge> FINDERR)
    \<and> (e = FF_Found k \<longrightarrow> k = r \<and> r < FINDERR
      \<and> (\<exists>sq1. attempt K p xsz ysz sky sq xc yc = Return (A_Max sq1)
            \<and> interpolate sq1 xc yc r ps = (FF_Found k, ps')))
    \<and> (e = FF_FlatPeak \<longrightarrow> r < FINDERR
      \<and> (\<exists>sq1. attempt K p xsz ysz sky sq xc yc = Return (A_Max sq1)
            \<and> interpolate sq1 xc yc r ps = (FF_FlatPeak, ps')))"
  proof cases
    case 1
    then show ?thesis by simp
  next
    case 2
    then show ?thesis by simp
  next
    case 3
    then show ?thesis by simp
  next
    case 4
    have "e = FF_FlatPeak \<or> e = FF_Found r" using i [of sq1] 4(3) by simp
    then show ?thesis using 4 by auto
  qed
  then show "e = FF_TooManyTries \<longrightarrow> r \<ge> FINDERR"
    and "e = FF_Found k \<longrightarrow> k = r \<and> r < FINDERR
      \<and> (\<exists>sq1. attempt K p xsz ysz sky sq xc yc = Return (A_Max sq1)
            \<and> interpolate sq1 xc yc r ps = (FF_Found k, ps'))"
    and "e = FF_FlatPeak \<longrightarrow> r < FINDERR
      \<and> (\<exists>sq1. attempt K p xsz ysz sky sq xc yc = Return (A_Max sq1)
            \<and> interpolate sq1 xc yc r ps = (FF_FlatPeak, ps'))"
    by blast+
qed

lemma atFindFocMom_path:
  assumes "atFindFocMom K p xsz ysz x y sky ps = Return res"
  shows "\<exists>n sq' xc yc. relocated K p xsz ysz sky n (sq_init, x, y) = Some (sq', xc, yc)
    \<and> length sq' = 9
    \<and> last_attempt K p xsz ysz sky ps (int n) sq' xc yc res
    \<and> (n > 0 \<longrightarrow> int n \<le> FINDERR)"
proof -
  from ffm_start_path [of K p xsz ysz sky ps sq_init 0 x y res] assms
  obtain n sq' xc yc where
    r: "relocated K p xsz ysz sky n (sq_init, x, y) = Some (sq', xc, yc)"
    and la: "last_attempt K p xsz ysz sky ps (int n) sq' xc yc res"
    and b: "n > 0 \<longrightarrow> int n \<le> FINDERR"
    by (auto simp: atFindFocMom_def sq_init_def)
  have "length sq' = 9" using relocated_length [OF r] by (simp add: sq_init_def)
  then show ?thesis using r la b by blast
qed

lemma atFindFocMom_relocated:
  assumes "relocated K p xsz ysz sky n (sq_init, x, y) = Some (sq', xc, yc)"
    and "int n \<le> FINDERR"
  shows "atFindFocMom K p xsz ysz x y sky ps
    = ffm_start K p xsz ysz sky ps sq' (int n) xc yc"
  using ffm_start_relocated [OF assms(1), of 0 ps] assms(2)
  by (simp add: atFindFocMom_def sq_init_def)

lemma atFindFocMom_at_max:
  assumes "relocated K p xsz ysz sky n (sq_init, x, y) = Some (sq', xc, yc)"
    and "int n < FINDERR"
    and "attempt K p xsz ysz sky sq' xc yc = Return (A_Max sq1)"
  shows "atFindFocMom K p xsz ysz x y sky ps = Return (interpolate sq1 xc yc (int n) ps)"
proof -
  have "atFindFocMom K p xsz ysz x y sky ps
      = ffm_start K p xsz ysz sky ps sq' (int n) xc yc"
    using assms(1,2) by (intro atFindFocMom_relocated) simp_all
  also have "\<dots> = Return (interpolate sq1 xc yc (int n) ps)"
    using assms(2,3) by (subst ffm_start_unfold) simp
  finally show ?thesis .
qed

subsection \<open>atFindFocMom: the interpolation\<close>

lemma filval_at_float:
  assumes "filval_at K p xsz ysz x y sky = Some v"
  shows "\<exists>w. v = to_float w" and "v \<noteq> 0"
proof -
  from assms obtain g where
    lg: "lgausmom K p xsz ysz x y sky gm_zero = Return (LG_Done, g)" and v: "v = g_filval g"
    by (auto simp: filval_at_def split: outcome.splits prod.splits lg_exit.splits)
  from lg obtain s where "lg_final s gm_zero = (LG_Done, g)"
    by (auto simp: lgausmom_def Let_def split: if_splits option.splits)
  from lg_final_filval(2,3) [OF this] show "\<exists>w. v = to_float w" "v \<noteq> 0"
    unfolding v by auto
qed

text \<open>
  On values of \<open>g_filval\<close>, which are integers, the second difference is computed in
  \<open>double\<close> without rounding, and its test against \<open>EPS\<close> is the test of the exact
  second difference against \<open>1e-10\<close>.
\<close>

lemma second_diff_to_float:
  fixes a b c :: i32
  shows "second_diff (to_float c) (to_float a) (to_float b)
      = f32 (2 * to_float c - to_float a - to_float b)"
    and "second_diff (to_float c) (to_float a) (to_float b) < EPS
      \<longleftrightarrow> curvature (to_float c) (to_float a) (to_float b) < 1 / 10 ^ 10"
proof -
  obtain nc where nc: "to_float c = of_int nc" using to_float_Ints [of c] by (auto elim: Ints_cases)
  obtain na where na: "to_float a = of_int na" using to_float_Ints [of a] by (auto elim: Ints_cases)
  obtain nb where nb: "to_float b = of_int nb" using to_float_Ints [of b] by (auto elim: Ints_cases)
  have "\<bar>real_of_int nc\<bar> \<le> real_of_int (2 ^ 31)" "\<bar>real_of_int na\<bar> \<le> real_of_int (2 ^ 31)"
    "\<bar>real_of_int nb\<bar> \<le> real_of_int (2 ^ 31)"
    using to_float_abs_le [of c] to_float_abs_le [of a] to_float_abs_le [of b]
    unfolding nc na nb by simp_all
  then have bnd: "\<bar>nc\<bar> \<le> 2 ^ 31" "\<bar>na\<bar> \<le> 2 ^ 31" "\<bar>nb\<bar> \<le> 2 ^ 31"
    by (simp_all only: of_int_abs [symmetric] of_int_le_iff)
  have 1: "f64 (2 * real_of_int nc) = real_of_int (2 * nc)"
    using f64_int [of "2 * nc"] bnd by simp
  have 2: "f64 (real_of_int (2 * nc) - real_of_int na) = real_of_int (2 * nc - na)"
    using f64_int [of "2 * nc - na"] bnd by simp
  have 3: "f64 (real_of_int (2 * nc - na) - real_of_int nb) = real_of_int (2 * nc - na - nb)"
    using f64_int [of "2 * nc - na - nb"] bnd by simp
  have sd: "second_diff (to_float c) (to_float a) (to_float b) = f32 (real_of_int (2 * nc - na - nb))"
    unfolding second_diff_def nc na nb 1 2 3 ..
  then show "second_diff (to_float c) (to_float a) (to_float b)
      = f32 (2 * to_float c - to_float a - to_float b)"
    unfolding nc na nb by simp
  have cv: "curvature (to_float c) (to_float a) (to_float b) = real_of_int (2 * nc - na - nb)"
    unfolding nc na nb by (simp add: curvature_def)
  show "second_diff (to_float c) (to_float a) (to_float b) < EPS
      \<longleftrightarrow> curvature (to_float c) (to_float a) (to_float b) < 1 / 10 ^ 10"
  proof (cases "2 * nc - na - nb \<le> 0")
    case True
    then have "real_of_int (2 * nc - na - nb) \<le> 0" by (simp only: of_int_le_0_iff)
    then have "f32 (real_of_int (2 * nc - na - nb)) \<le> 0" "real_of_int (2 * nc - na - nb) < 1 / 10 ^ 10"
      by (simp_all add: f32_nonpos)
    then show ?thesis unfolding sd cv using EPS_bounds by simp
  next
    case False
    then have "1 \<le> 2 * nc - na - nb" by simp
    then have "1 \<le> real_of_int (2 * nc - na - nb)" by (simp only: of_int_1_le_iff)
    then have "1 \<le> f32 (real_of_int (2 * nc - na - nb))" "\<not> real_of_int (2 * nc - na - nb) < 1 / 10 ^ 10"
      by (simp_all add: f32_ge_1)
    then show ?thesis unfolding sd cv using EPS_bounds by simp
  qed
qed



lemma interpolate_exit:
  "fst (interpolate sq x y ret ps) =
     (if second_diff (g_filval (val sq 1 1)) (g_filval (val sq 1 2)) (g_filval (val sq 1 0)) < EPS
        \<or> second_diff (g_filval (val sq 1 1)) (g_filval (val sq 2 1)) (g_filval (val sq 0 1)) < EPS
        \<or> second_diff (g_filval (val sq 1 1)) (g_filval (val sq 2 2)) (g_filval (val sq 0 0)) < EPS
        \<or> second_diff (g_filval (val sq 1 1)) (g_filval (val sq 2 0)) (g_filval (val sq 0 2)) < EPS
      then FF_FlatPeak else FF_Found ret)"
  by (simp add: interpolate_def Let_def)

lemma interpolate_flat:
  assumes "fst (interpolate sq x y ret ps) = FF_FlatPeak"
  shows "interpolate sq x y ret ps = (FF_FlatPeak, ps)"
  using assms by (simp add: interpolate_def Let_def split: if_splits)


text \<open>Four runs used below, evaluated.\<close>

lemma hole7_centre:
  "atFindFocMom kernel_eighth hole7 7 7 3 3 0 gm_zero
     = Return (FF_Found 0, \<lparr>g_xmom = - (13981013 / 16777216), g_ymom = - (13981013 / 16777216),
         g_pmom = - (13981013 / 16777216), g_mmom = - (13981013 / 16777216),
         g_filval = 900, g_xf = 7 / 2, g_yf = 7 / 2\<rparr>)"
  by (simp add: atFindFocMom_def ffm_start.simps lgausmom_def lg_loop.simps lg_final_def
      accum_def ring_def pix_def hole7_def kernel_eighth_def tap_def pixval_def Let_def
      to_float_def gm_zero_def FINDERR_def neighbours_def val_def interpolate_def EPS_val
      DXF_def DYF_def second_diff_def half_diff_def parabolic_def peak_value_def fl_eval)

lemma hole7_beside:
  "atFindFocMom kernel_eighth hole7 7 7 4 3 0 gm_zero
     = Return (FF_Found 1, \<lparr>g_xmom = - (13981013 / 16777216), g_ymom = - (13981013 / 16777216),
         g_pmom = - (13981013 / 16777216), g_mmom = - (13981013 / 16777216),
         g_filval = 900, g_xf = 7 / 2, g_yf = 7 / 2\<rparr>)"
  by (simp add: atFindFocMom_def ffm_start.simps lgausmom_def lg_loop.simps lg_final_def
      accum_def ring_def pix_def hole7_def kernel_eighth_def tap_def pixval_def Let_def
      to_float_def gm_zero_def FINDERR_def neighbours_def val_def interpolate_def EPS_val
      DXF_def DYF_def second_diff_def half_diff_def parabolic_def peak_value_def fl_eval)

lemma ramp20_tries:
  "atFindFocMom kernel_eighth ramp20 20 20 17 17 0 gm_zero = Return (FF_TooManyTries, gm_zero)"
  by (simp add: atFindFocMom_def ffm_start.simps lgausmom_def lg_loop.simps lg_final_def
      accum_def ring_def pix_def ramp20_def kernel_eighth_def tap_def pixval_def Let_def
      to_float_def gm_zero_def FINDERR_def neighbours_def val_def fl_eval)

lemma ramp20_edge:
  "atFindFocMom kernel_eighth ramp20 20 20 1 17 0 gm_zero = Return (FF_TooCloseToEdge, gm_zero)"
  by (simp add: atFindFocMom_def ffm_start.simps kernel_eighth_def FINDERR_def)

subsection \<open>atFindFocMom: the retry counter\<close>

text \<open>
  C6 (as amended). The passes of \<open>atFindFocMom\<close> are determined by the start:
  \<open>relocated n (sq_init, x, y)\<close> is the centre after \<open>n\<close> relocations, if the run makes
  that many. \<open>atFindFocMom\<close> returns at \<open>if(ret >= FINDERR)\<close> exactly when the run
  makes 15 relocations; the value it returns there is \<open>-1\<close>, the value it also
  returns for a centre too close to an edge. When it succeeds with the value \<open>r\<close>,
  then \<open>0 \<le> r < 15\<close> and the run has made exactly \<open>r\<close> relocations: the pass from the
  \<open>r\<close>-th centre has found no neighbour above the centre. (The sizes are not
  negative, so that \<open>xsz - ncut - 1\<close> and \<open>ysz - ncut - 1\<close> are in the range of \<open>int\<close>.)
\<close>

theorem atFindFocMom_retry_counter:
  assumes "0 \<le> xsz" and "0 \<le> ysz"
    and "atFindFocMom K p xsz ysz x y sky ps = Return (e, ps')"
  shows "(e = FF_TooManyTries
            \<longleftrightarrow> (\<exists>st. relocated K p xsz ysz sky 15 (sq_init, x, y) = Some st))
       \<and> (e = FF_TooManyTries \<longrightarrow> ff_status e = - 1)
       \<and> (e = FF_TooCloseToEdge \<longrightarrow> ff_status e = - 1)
       \<and> (\<forall>r. e = FF_Found r \<longrightarrow>
            ff_status e = r \<and> 0 \<le> r \<and> r < 15
            \<and> (\<exists>sq' xc yc sq1.
                  relocated K p xsz ysz sky (nat r) (sq_init, x, y) = Some (sq', xc, yc)
                \<and> attempt K p xsz ysz sky sq' xc yc = Return (A_Max sq1)))"
proof -
  from atFindFocMom_path [OF assms(3)] obtain n sq' xc yc where
    r: "relocated K p xsz ysz sky n (sq_init, x, y) = Some (sq', xc, yc)"
    and la: "last_attempt K p xsz ysz sky ps (int n) sq' xc yc (e, ps')"
    and b: "n > 0 \<longrightarrow> int n \<le> FINDERR"
    by blast
  note ex = last_attempt_exit [OF la]
  have 1: "\<exists>st. relocated K p xsz ysz sky 15 (sq_init, x, y) = Some st"
    if "e = FF_TooManyTries"
  proof -
    have "int n \<ge> FINDERR" using ex(1) that by simp
    then have "n = 15" using b by (auto simp: FINDERR_def)
    then show ?thesis using r by auto
  qed
  have 2: "e = FF_TooManyTries"
    if "relocated K p xsz ysz sky 15 (sq_init, x, y) = Some st" for st
  proof -
    obtain sq2 x2 y2 where st: "st = (sq2, x2, y2)" by (rule prod_cases3)
    have "atFindFocMom K p xsz ysz x y sky ps
        = ffm_start K p xsz ysz sky ps sq2 (int 15) x2 y2"
      using that unfolding st by (intro atFindFocMom_relocated) (simp_all add: FINDERR_def)
    also have "\<dots> = Return (FF_TooManyTries, ps)"
      by (subst ffm_start_unfold) (simp add: FINDERR_def)
    finally show ?thesis using assms(3) by simp
  qed
  have 3: "ff_status e = k \<and> 0 \<le> k \<and> k < 15
      \<and> (\<exists>sq' xc yc sq1.
            relocated K p xsz ysz sky (nat k) (sq_init, x, y) = Some (sq', xc, yc)
          \<and> attempt K p xsz ysz sky sq' xc yc = Return (A_Max sq1))"
    if "e = FF_Found k" for k
  proof -
    from ex(2) [of k] that obtain sq1 where
      k: "k = int n" "int n < FINDERR"
      and a: "attempt K p xsz ysz sky sq' xc yc = Return (A_Max sq1)"
      by auto
    have "relocated K p xsz ysz sky (nat k) (sq_init, x, y) = Some (sq', xc, yc)"
      using r k by simp
    then show ?thesis using a k that by (auto simp: FINDERR_def)
  qed
  show ?thesis using 1 2 3 by auto
qed

theorem atFindFocMom_retry_counter_witness:
  "(0::int) \<le> 7 \<and> (0::int) \<le> 20
   \<and> atFindFocMom kernel_eighth hole7 7 7 4 3 0 gm_zero
     = Return (FF_Found 1, \<lparr>g_xmom = - (13981013 / 16777216), g_ymom = - (13981013 / 16777216),
         g_pmom = - (13981013 / 16777216), g_mmom = - (13981013 / 16777216),
         g_filval = 900, g_xf = 7 / 2, g_yf = 7 / 2\<rparr>)
   \<and> ff_status (FF_Found 1) = 1
   \<and> (\<exists>sq' xc yc sq1. relocated kernel_eighth hole7 7 7 0 (nat 1) (sq_init, 4, 3)
         = Some (sq', xc, yc)
       \<and> attempt kernel_eighth hole7 7 7 0 sq' xc yc = Return (A_Max sq1))
   \<and> atFindFocMom kernel_eighth ramp20 20 20 17 17 0 gm_zero
     = Return (FF_TooManyTries, gm_zero)
   \<and> (\<exists>st. relocated kernel_eighth ramp20 20 20 0 15 (sq_init, 17, 17) = Some st)"
  using atFindFocMom_retry_counter [OF _ _ hole7_beside]
    atFindFocMom_retry_counter [OF _ _ ramp20_tries]
    hole7_beside ramp20_tries
  by simp

text \<open>
  C6 as stated fails: the run that uses up its retries and the run that starts too
  close to an edge return the same value.
\<close>

theorem atFindFocMom_retry_counterexample:
  "atFindFocMom kernel_eighth ramp20 20 20 17 17 0 gm_zero = Return (FF_TooManyTries, gm_zero)
   \<and> atFindFocMom kernel_eighth ramp20 20 20 1 17 0 gm_zero
     = Return (FF_TooCloseToEdge, gm_zero)
   \<and> ff_status FF_TooManyTries = ff_status FF_TooCloseToEdge"
  using ramp20_tries ramp20_edge by simp

subsection \<open>atFindFocMom: the peak value\<close>


subsection \<open>atFindFocMom on a flat image\<close>

lemma pix_flat:
  assumes "wf_image p xsz ysz" and "flat_image p c"
    and "0 \<le> r" and "r < ysz" and "0 \<le> col" and "col < xsz"
  shows "pix p r col = Some c"
proof -
  have r: "nat r < length p" using assms by (auto simp: wf_image_def)
  then have row: "p ! nat r \<in> set p" by simp
  then have "int (length (p ! nat r)) = xsz" using assms by (auto simp: wf_image_def)
  then have c: "nat col < length (p ! nat r)" using assms by auto
  then have "p ! nat r ! nat col \<in> set (p ! nat r)" by simp
  then have "p ! nat r ! nat col = c" using assms(2) row by (auto simp: flat_image_def)
  moreover have "r < int (length p)" "col < int (length (p ! nat r))"
    using r c assms(3,5) by auto
  ultimately show ?thesis using assms(3,5) by (simp add: pix_def)
qed

lemma row0_loop_cong:
  assumes "\<And>k. k < ncut \<Longrightarrow> pix p y (x + int k) = pix p' y' (x' + int k)
      \<and> pix p y (x - int k) = pix p' y' (x' - int k)"
    and "n < ncut"
  shows "row0_loop K p x y sky2 ncut n acc = row0_loop K p' x' y' sky2 ncut n acc"
  using assms(2)
proof (induction n arbitrary: acc)
  case 0
  then show ?case by simp
next
  case (Suc m)
  obtain l lx lx2 where acc: "acc = (l, lx, lx2)" by (rule prod_cases3)
  have k: "ncut - Suc m < ncut" using Suc.prems by simp
  have m: "m < ncut" using Suc.prems by simp
  show ?case unfolding acc
    using assms(1) [OF k] Suc.IH [OF m]
    by (simp add: Let_def split: option.splits)
qed

lemma rowi_loop_cong:
  assumes "\<And>k. k < ncut \<Longrightarrow>
      pix p (y + int i) (x + int k) = pix p' (y' + int i) (x' + int k)
      \<and> pix p (y + int i) (x - int k) = pix p' (y' + int i) (x' - int k)
      \<and> pix p (y - int i) (x + int k) = pix p' (y' - int i) (x' + int k)
      \<and> pix p (y - int i) (x - int k) = pix p' (y' - int i) (x' - int k)"
    and "n < ncut"
  shows "rowi_loop K p x y i sky4 ncut n acc = rowi_loop K p' x' y' i sky4 ncut n acc"
  using assms(2)
proof (induction n arbitrary: acc)
  case 0
  then show ?case by simp
next
  case (Suc m)
  obtain l lx lx2 where acc: "acc = (l, lx, lx2)" by (rule prod_cases3)
  have k: "ncut - Suc m < ncut" using Suc.prems by simp
  have m: "m < ncut" using Suc.prems by simp
  show ?case unfolding acc
    using assms(1) [OF k] Suc.IH [OF m]
    by (simp add: Let_def split: option.splits)
qed

lemma ring_cong:
  assumes "\<And>k. k < ncut \<Longrightarrow>
      pix p (y + int i) (x + int k) = pix p' (y' + int i) (x' + int k)
      \<and> pix p (y + int i) (x - int k) = pix p' (y' + int i) (x' - int k)
      \<and> pix p (y - int i) (x + int k) = pix p' (y' - int i) (x' + int k)
      \<and> pix p (y - int i) (x - int k) = pix p' (y' - int i) (x' - int k)"
    and "0 < ncut"
  shows "ring K p x y sky ncut i = ring K p' x' y' sky ncut i"
proof -
  have c: "pix p (y + int i) x = pix p' (y' + int i) x'"
    "pix p (y - int i) x = pix p' (y' - int i) x'"
    using assms(1) [OF assms(2)] by simp_all
  have n: "ncut - 1 < ncut" using assms(2) by simp
  show ?thesis
  proof (cases "i = 0")
    case True
    have "row0_loop K p x y (2 * sky) ncut (ncut - 1) acc
        = row0_loop K p' x' y' (2 * sky) ncut (ncut - 1) acc" for acc
      using assms(1) True by (intro row0_loop_cong n) simp
    then show ?thesis using True c by (simp add: ring_def Let_def split: option.splits)
  next
    case False
    have "rowi_loop K p x y i (4 * sky) ncut (ncut - 1) acc
        = rowi_loop K p' x' y' i (4 * sky) ncut (ncut - 1) acc" for acc
      using assms(1) by (intro rowi_loop_cong n) simp
    then show ?thesis using False c by (simp add: ring_def Let_def split: option.splits)
  qed
qed

lemma lg_loop_cong:
  assumes "\<And>j. j < ncut \<Longrightarrow> ring K p x y sky ncut j = ring K p' x' y' sky ncut j"
  shows "lg_loop K p x y sky ncut i s = lg_loop K p' x' y' sky ncut i s"
  using assms
proof (induction K p x y sky ncut i s rule: lg_loop.induct)
  case (1 K p x y sky ncut i s)
  show ?case
  proof (cases "i < ncut")
    case True
    note r = "1.prems" [OF True]
    show ?thesis
    proof (cases "ring K p x y sky ncut i")
      case None
      then show ?thesis using True r
        by (subst lg_loop.simps, subst (2) lg_loop.simps) simp
    next
      case (Some l)
      have "lg_loop K p x y sky ncut (Suc i) (accum K i l s)
          = lg_loop K p' x' y' sky ncut (Suc i) (accum K i l s)"
        using "1.prems" by (intro "1.IH" [OF True Some]) simp
      moreover have "ring K p' x' y' sky ncut i = Some l" using r Some by simp
      ultimately show ?thesis using True Some
        by (subst lg_loop.simps, subst (2) lg_loop.simps) simp
    qed
  next
    case False
    then show ?thesis by (subst lg_loop.simps, subst (2) lg_loop.simps) simp
  qed
qed

text \<open>
  On a flat image of the announced extents \<open>lgausmom\<close> comes to the same four totals
  at every pixel that is \<open>ncut - 1\<close> or more away from the edges.
\<close>

lemma lgausmom_flat:
  assumes wf: "wf_image p xsz ysz" and fl: "flat_image p c" and g: "sigmagen K \<noteq> 0"
    and a: "int (sig_ncut K) - 1 \<le> x" "x + int (sig_ncut K) \<le> xsz"
      "int (sig_ncut K) - 1 \<le> y" "y + int (sig_ncut K) \<le> ysz"
  shows "\<exists>s. \<forall>x' y' ps'.
      int (sig_ncut K) - 1 \<le> x' \<and> x' + int (sig_ncut K) \<le> xsz
      \<and> int (sig_ncut K) - 1 \<le> y' \<and> y' + int (sig_ncut K) \<le> ysz
      \<longrightarrow> lgausmom K p xsz ysz x' y' sky ps' = Return (lg_final s ps')"
proof -
  define ncut where "ncut = sig_ncut K"
  have P: "pix p r col = Some c" if "0 \<le> r" "r < ysz" "0 \<le> col" "col < xsz" for r col
    using pix_flat [OF wf fl that] .
  have T: "\<exists>r. lg_loop K p x y sky ncut 0 (0, 0, 0, 0) = Some r"
  proof (rule lg_loop_total)
    fix j assume j: "0 \<le> j" "j < ncut"
    then have n: "0 < ncut" by simp
    show "\<exists>l. ring K p x y sky ncut j = Some l"
      using a j unfolding ncut_def [symmetric]
      by (intro ring_total n) (simp add: P)
  qed
  then obtain s where s: "lg_loop K p x y sky ncut 0 (0, 0, 0, 0) = Some s" by blast
  have "lgausmom K p xsz ysz x' y' sky ps' = Return (lg_final s ps')"
    if b: "int (sig_ncut K) - 1 \<le> x'" "x' + int (sig_ncut K) \<le> xsz"
      "int (sig_ncut K) - 1 \<le> y'" "y' + int (sig_ncut K) \<le> ysz" for x' y' ps'
  proof -
    have R: "ring K p x y sky ncut j = ring K p x' y' sky ncut j" if "j < ncut" for j
    proof -
      have n: "0 < ncut" using that by simp
      show ?thesis
        using a b that unfolding ncut_def [symmetric]
        by (intro ring_cong n) (simp add: P)
    qed
    have "lg_loop K p x y sky ncut 0 (0, 0, 0, 0) = lg_loop K p x' y' sky ncut 0 (0, 0, 0, 0)"
      using R by (rule lg_loop_cong)
    then have "lg_loop K p x' y' sky ncut 0 (0, 0, 0, 0) = Some s" using s by simp
    then show ?thesis using g b by (simp add: lgausmom_def ncut_def)
  qed
  then show ?thesis by blast
qed

lemma lg_final_indep:
  assumes "lg_final s ps = (e, g)" and "\<not> lg_status e < 0"
  shows "\<exists>g'. lg_final s ps' = (e, g') \<and> g_filval g' = g_filval g"
proof -
  obtain a b c d where s: "s = (a, b, c, d)" by (rule prod_cases4)
  from assms(2) have e: "e = LG_Done" by (cases e) auto
  show ?thesis using assms(1) unfolding s e
    by (auto simp: lg_final_def Let_def split: if_splits)
qed

lemma scan_flat:
  assumes "\<And>i j ps. (i, j) \<in> set rest \<Longrightarrow>
      \<exists>g. lgausmom K p xsz ysz (x + int j - 1) (y + int i - 1) sky ps = Return (LG_Done, g)
        \<and> g_filval g \<le> vc"
  shows "\<exists>sq1. scan K p xsz ysz x y sky vc rest sq = Return (Scan_Done sq1)"
  using assms
proof (induction rest arbitrary: sq)
  case Nil
  then show ?case by simp
next
  case (Cons ij rest)
  obtain i j where ij: "ij = (i, j)" by (cases ij) auto
  from Cons.prems [of i j "val sq i j"] obtain g where
    g: "lgausmom K p xsz ysz (x + int j - 1) (y + int i - 1) sky (val sq i j)
      = Return (LG_Done, g)" and le: "g_filval g \<le> vc"
    unfolding ij by auto
  have "\<exists>sq1. scan K p xsz ysz x y sky vc rest (sq[3 * i + j := g]) = Return (Scan_Done sq1)"
    using Cons.prems by (intro Cons.IH) auto
  then show ?case unfolding ij using g le by (simp add: Let_def)
qed

lemma atFindFocMom_flat:
  assumes wf: "wf_image p xsz ysz" and fl: "flat_image p c" and g: "sigmagen K \<noteq> 0"
    and ne: "\<not> near_edge K xsz ysz x y"
  shows "atFindFocMom K p xsz ysz x y sky ps =
     Return (if returned (lgausmom K p xsz ysz x y sky gm_zero) = Some LG_ZeroIntegral
             then FF_MomentError else FF_FlatPeak, ps)"
proof -
  define sq where "sq = replicate 9 gm_zero"
  have len: "length sq = 9" by (simp add: sq_def)
  have c: "int (sig_ncut K) - 1 \<le> x" "x + int (sig_ncut K) \<le> xsz"
      "int (sig_ncut K) - 1 \<le> y" "y + int (sig_ncut K) \<le> ysz"
    using ne by (auto simp: near_edge_def)
  have ne': "\<not> (x < int (sig_ncut K) \<or> y < int (sig_ncut K)
          \<or> xsz - int (sig_ncut K) - 1 < x \<or> ysz - int (sig_ncut K) - 1 < y)"
    using ne by (simp add: near_edge_def)
  from lgausmom_flat [OF wf fl g c, of sky] obtain s where
    S: "\<And>x' y' ps'. int (sig_ncut K) - 1 \<le> x' \<Longrightarrow> x' + int (sig_ncut K) \<le> xsz
      \<Longrightarrow> int (sig_ncut K) - 1 \<le> y' \<Longrightarrow> y' + int (sig_ncut K) \<le> ysz
      \<Longrightarrow> lgausmom K p xsz ysz x' y' sky ps' = Return (lg_final s ps')"
    by blast
  have s: "lgausmom K p xsz ysz x y sky (val sq 1 1) = Return (lg_final s (val sq 1 1))"
    and s0: "lgausmom K p xsz ysz x y sky gm_zero = Return (lg_final s gm_zero)"
    using S [OF c] by simp_all
  obtain e gc where eg: "lg_final s (val sq 1 1) = (e, gc)" by (cases "lg_final s (val sq 1 1)")
  note unf = ffm_start.simps [of K p xsz ysz sky ps sq 0 x y]
  have e_cases: "e = LG_ZeroIntegral \<or> e = LG_Done"
    using lg_final_exit [of s "val sq 1 1"] eg by simp
  show ?thesis
  proof (cases "lg_status e < 0")
    case True
    then have z: "e = LG_ZeroIntegral" using e_cases by auto
    have "fst (lg_final s gm_zero) = LG_ZeroIntegral"
    proof (rule ccontr)
      assume "fst (lg_final s gm_zero) \<noteq> LG_ZeroIntegral"
      then have d: "fst (lg_final s gm_zero) = LG_Done" using lg_final_exit [of s gm_zero] by simp
      then obtain g0 where "lg_final s gm_zero = (LG_Done, g0)"
        by (cases "lg_final s gm_zero") auto
      from lg_final_indep [OF this, of "val sq 1 1"] eg z show False by auto
    qed
    then have "returned (lgausmom K p xsz ysz x y sky gm_zero) = Some LG_ZeroIntegral"
      using s0 by (cases "lg_final s gm_zero") (simp add: returned_def)
    moreover have "ffm_start K p xsz ysz sky ps sq 0 x y = Return (FF_MomentError, ps)"
      using unf ne' s eg True by (simp add: Let_def FINDERR_def)
    ultimately show ?thesis by (simp add: atFindFocMom_def sq_def)
  next
    case ok: False
    then have d: "e = LG_Done" using e_cases by auto
    have nz: "returned (lgausmom K p xsz ysz x y sky gm_zero) \<noteq> Some LG_ZeroIntegral"
      using lg_final_indep [OF eg ok, of gm_zero] s0 d by (auto simp: returned_def)
    have nb: "\<exists>g. lgausmom K p xsz ysz (x + int j - 1) (y + int i - 1) sky ps' = Return (LG_Done, g)
        \<and> g_filval g = g_filval gc" if "i < 3" "j < 3" for i j ps'
    proof -
      have b: "int (sig_ncut K) - 1 \<le> x + int j - 1" "x + int j - 1 + int (sig_ncut K) \<le> xsz"
        "int (sig_ncut K) - 1 \<le> y + int i - 1" "y + int i - 1 + int (sig_ncut K) \<le> ysz"
        using ne' that by auto
      have "lgausmom K p xsz ysz (x + int j - 1) (y + int i - 1) sky ps' = Return (lg_final s ps')"
        using S [OF b] .
      then show ?thesis using lg_final_indep [OF eg ok, of ps'] d by auto
    qed
    have "\<exists>sq1. scan K p xsz ysz x y sky (g_filval gc) neighbours (sq[4 := gc])
        = Return (Scan_Done sq1)"
    proof (rule scan_flat)
      fix i j ps' assume "(i, j) \<in> set neighbours"
      then have "i < 3" "j < 3" using neighbours_props(2) by auto
      from nb [OF this, of ps']
      show "\<exists>g. lgausmom K p xsz ysz (x + int j - 1) (y + int i - 1) sky ps' = Return (LG_Done, g)
        \<and> g_filval g \<le> g_filval gc" by auto
    qed
    then obtain sq1 where sc: "scan K p xsz ysz x y sky (g_filval gc) neighbours (sq[4 := gc])
        = Return (Scan_Done sq1)" by blast
    have lm: "local_max K p xsz ysz sky x y sq1"
      using local_maxI [OF _ ok sc len] s eg by simp
    have v: "g_filval (val sq1 i j) = g_filval gc" if "i < 3" "j < 3" for i j
    proof -
      from nb [OF that, of gm_zero] obtain g0 where
        "lgausmom K p xsz ysz (x + int j - 1) (y + int i - 1) sky gm_zero = Return (LG_Done, g0)"
        and "g_filval g0 = g_filval gc" by blast
      then have "filval_at K p xsz ysz (x + int j - 1) (y + int i - 1) sky = Some (g_filval gc)"
        by (simp add: filval_at_def)
      then show ?thesis using lm that by (simp add: local_max_def)
    qed
    obtain w where w: "g_filval gc = to_float w" using lg_final_filval(2) [OF eg ok] by blast
    have "second_diff (to_float w) (to_float w) (to_float w) < EPS"
      unfolding second_diff_to_float(2) by (simp add: curvature_def)
    then have "fst (interpolate sq1 x y 0 ps) = FF_FlatPeak"
      unfolding interpolate_exit using v [of 1 1] v [of 1 2] v [of 1 0]
      by (simp add: w)
    then have "interpolate sq1 x y 0 ps = (FF_FlatPeak, ps)" by (rule interpolate_flat)
    then have "ffm_start K p xsz ysz sky ps sq 0 x y = Return (FF_FlatPeak, ps)"
      using unf ne' s eg ok sc by (simp add: Let_def FINDERR_def)
    then show ?thesis using nz by (simp add: atFindFocMom_def sq_def)
  qed
qed

lemma zero5_run:
  "atFindFocMom kernel_eighth zero5 5 5 2 2 0 gm_zero = Return (FF_MomentError, gm_zero)"
  by (simp add: atFindFocMom_def ffm_start.simps lgausmom_def lg_loop.simps lg_final_def
      accum_def ring_def pix_def zero5_def kernel_eighth_def tap_def pixval_def Let_def
      to_float_def gm_zero_def FINDERR_def val_def fl_eval)

lemma flat5_centre:
  "returned (lgausmom kernel_eighth flat5 5 5 2 2 0 gm_zero) = Some LG_Done"
  by (simp add: returned_def lgausmom_def lg_loop.simps lg_final_def
      accum_def ring_def pix_def flat5_def kernel_eighth_def tap_def pixval_def Let_def
      to_float_def gm_zero_def fl_eval)

lemma hole7_attempt:
  "attempt kernel_eighth hole7 7 7 0 sq_init 3 3 = Return (A_Max hole7_sq)"
  apply (simp add: attempt_def near_edge_def sq_init_def hole7_sq_def lgausmom_def lg_loop.simps
      lg_final_def accum_def ring_def pix_def hole7_def kernel_eighth_def tap_def pixval_def
      Let_def to_float_def gm_zero_def neighbours_def val_def fl_eval)
  apply (simp add: eval_nat_numeral)
  done

text \<open>
  The nine values of \<open>g_filval\<close> after a pass that has found no neighbour above the
  centre, and the exit of the interpolation in terms of the exact second
  differences.
\<close>

lemma at_max_values:
  assumes lm: "local_max K p xsz ysz sky xc yc sq"
  shows "\<exists>vc vxp vxm vyp vym vpp vmm vmp vpm.
            filval_at K p xsz ysz xc yc sky = Some vc
          \<and> filval_at K p xsz ysz (xc + 1) yc sky = Some vxp
          \<and> filval_at K p xsz ysz (xc - 1) yc sky = Some vxm
          \<and> filval_at K p xsz ysz xc (yc + 1) sky = Some vyp
          \<and> filval_at K p xsz ysz xc (yc - 1) sky = Some vym
          \<and> filval_at K p xsz ysz (xc + 1) (yc + 1) sky = Some vpp
          \<and> filval_at K p xsz ysz (xc - 1) (yc - 1) sky = Some vmm
          \<and> filval_at K p xsz ysz (xc - 1) (yc + 1) sky = Some vmp
          \<and> filval_at K p xsz ysz (xc + 1) (yc - 1) sky = Some vpm
          \<and> vxp \<le> vc \<and> vxm \<le> vc \<and> vyp \<le> vc \<and> vym \<le> vc
          \<and> vpp \<le> vc \<and> vmm \<le> vc \<and> vmp \<le> vc \<and> vpm \<le> vc
          \<and> (fst (interpolate sq xc yc r ps) = FF_FlatPeak \<longleftrightarrow>
                curvature vc vxp vxm < 1 / 10 ^ 10 \<or> curvature vc vyp vym < 1 / 10 ^ 10
                \<or> curvature vc vpp vmm < 1 / 10 ^ 10 \<or> curvature vc vmp vpm < 1 / 10 ^ 10)
          \<and> (fst (interpolate sq xc yc r ps) \<noteq> FF_FlatPeak
                \<longrightarrow> fst (interpolate sq xc yc r ps) = FF_Found r)"
proof -
  have F: "filval_at K p xsz ysz (xc + int j - 1) (yc + int i - 1) sky
      = Some (g_filval (val sq i j)) \<and> g_filval (val sq i j) \<le> g_filval (val sq 1 1)"
    if "i < 3" "j < 3" for i j
    using lm that by (simp add: local_max_def)
  define vc where "vc = g_filval (val sq 1 1)"
  define vxp where "vxp = g_filval (val sq 1 2)"
  define vxm where "vxm = g_filval (val sq 1 0)"
  define vyp where "vyp = g_filval (val sq 2 1)"
  define vym where "vym = g_filval (val sq 0 1)"
  define vpp where "vpp = g_filval (val sq 2 2)"
  define vmm where "vmm = g_filval (val sq 0 0)"
  define vmp where "vmp = g_filval (val sq 2 0)"
  define vpm where "vpm = g_filval (val sq 0 2)"
  note defs = vc_def vxp_def vxm_def vyp_def vym_def vpp_def vmm_def vmp_def vpm_def
  have f1: "filval_at K p xsz ysz xc yc sky = Some vc"
    using F [of 1 1] by (simp add: defs)
  have f2: "filval_at K p xsz ysz (xc + 1) yc sky = Some vxp" and l2: "vxp \<le> vc"
    using F [of 1 2] by (simp_all add: defs add.commute)
  have f3: "filval_at K p xsz ysz (xc - 1) yc sky = Some vxm" and l3: "vxm \<le> vc"
    using F [of 1 0] by (simp_all add: defs add.commute)
  have f4: "filval_at K p xsz ysz xc (yc + 1) sky = Some vyp" and l4: "vyp \<le> vc"
    using F [of 2 1] by (simp_all add: defs add.commute)
  have f5: "filval_at K p xsz ysz xc (yc - 1) sky = Some vym" and l5: "vym \<le> vc"
    using F [of 0 1] by (simp_all add: defs add.commute)
  have f6: "filval_at K p xsz ysz (xc + 1) (yc + 1) sky = Some vpp" and l6: "vpp \<le> vc"
    using F [of 2 2] by (simp_all add: defs add.commute)
  have f7: "filval_at K p xsz ysz (xc - 1) (yc - 1) sky = Some vmm" and l7: "vmm \<le> vc"
    using F [of 0 0] by (simp_all add: defs add.commute)
  have f8: "filval_at K p xsz ysz (xc - 1) (yc + 1) sky = Some vmp" and l8: "vmp \<le> vc"
    using F [of 2 0] by (simp_all add: defs add.commute)
  have f9: "filval_at K p xsz ysz (xc + 1) (yc - 1) sky = Some vpm" and l9: "vpm \<le> vc"
    using F [of 0 2] by (simp_all add: defs add.commute)
  obtain w1 w2 w3 w4 w5 w6 w7 w8 w9 where
    w: "vc = to_float w1" "vxp = to_float w2" "vxm = to_float w3" "vyp = to_float w4"
      "vym = to_float w5" "vpp = to_float w6" "vmm = to_float w7" "vmp = to_float w8"
      "vpm = to_float w9"
    using filval_at_float(1) [OF f1] filval_at_float(1) [OF f2] filval_at_float(1) [OF f3]
      filval_at_float(1) [OF f4] filval_at_float(1) [OF f5] filval_at_float(1) [OF f6]
      filval_at_float(1) [OF f7] filval_at_float(1) [OF f8] filval_at_float(1) [OF f9]
    by blast
  have t: "second_diff vc vxp vxm < EPS \<longleftrightarrow> curvature vc vxp vxm < 1 / 10 ^ 10"
    "second_diff vc vyp vym < EPS \<longleftrightarrow> curvature vc vyp vym < 1 / 10 ^ 10"
    "second_diff vc vpp vmm < EPS \<longleftrightarrow> curvature vc vpp vmm < 1 / 10 ^ 10"
    "second_diff vc vmp vpm < EPS \<longleftrightarrow> curvature vc vmp vpm < 1 / 10 ^ 10"
    unfolding w by (rule second_diff_to_float(2))+
  note ex = interpolate_exit [of sq xc yc r ps, folded defs, unfolded t]
  have iff: "fst (interpolate sq xc yc r ps) = FF_FlatPeak \<longleftrightarrow>
                curvature vc vxp vxm < 1 / 10 ^ 10 \<or> curvature vc vyp vym < 1 / 10 ^ 10
                \<or> curvature vc vpp vmm < 1 / 10 ^ 10 \<or> curvature vc vmp vpm < 1 / 10 ^ 10"
    by (subst ex) simp
  have found: "fst (interpolate sq xc yc r ps) \<noteq> FF_FlatPeak
                \<longrightarrow> fst (interpolate sq xc yc r ps) = FF_Found r"
    by (subst (1 2) ex) simp
  have all: "filval_at K p xsz ysz xc yc sky = Some vc
          \<and> filval_at K p xsz ysz (xc + 1) yc sky = Some vxp
          \<and> filval_at K p xsz ysz (xc - 1) yc sky = Some vxm
          \<and> filval_at K p xsz ysz xc (yc + 1) sky = Some vyp
          \<and> filval_at K p xsz ysz xc (yc - 1) sky = Some vym
          \<and> filval_at K p xsz ysz (xc + 1) (yc + 1) sky = Some vpp
          \<and> filval_at K p xsz ysz (xc - 1) (yc - 1) sky = Some vmm
          \<and> filval_at K p xsz ysz (xc - 1) (yc + 1) sky = Some vmp
          \<and> filval_at K p xsz ysz (xc + 1) (yc - 1) sky = Some vpm
          \<and> vxp \<le> vc \<and> vxm \<le> vc \<and> vyp \<le> vc \<and> vym \<le> vc
          \<and> vpp \<le> vc \<and> vmm \<le> vc \<and> vmp \<le> vc \<and> vpm \<le> vc
          \<and> (fst (interpolate sq xc yc r ps) = FF_FlatPeak \<longleftrightarrow>
                curvature vc vxp vxm < 1 / 10 ^ 10 \<or> curvature vc vyp vym < 1 / 10 ^ 10
                \<or> curvature vc vpp vmm < 1 / 10 ^ 10 \<or> curvature vc vmp vpm < 1 / 10 ^ 10)
          \<and> (fst (interpolate sq xc yc r ps) \<noteq> FF_FlatPeak
                \<longrightarrow> fst (interpolate sq xc yc r ps) = FF_Found r)"
    by (intro conjI) (rule f1 f2 f3 f4 f5 f6 f7 f8 f9 l2 l3 l4 l5 l6 l7 l8 l9 iff found)+
  show ?thesis
    apply (rule exI [of _ vc])
    apply (rule exI [of _ vxp], rule exI [of _ vxm], rule exI [of _ vyp])
    apply (rule exI [of _ vym], rule exI [of _ vpp], rule exI [of _ vmm])
    apply (rule exI [of _ vmp], rule exI [of _ vpm])
    apply (rule all)
    done
qed

text \<open>
  C7 (as amended). On an image whose pixels are all equal, for a centre that passes
  the edge test, \<open>atFindFocMom\<close> returns the flat-peak error \<open>-3\<close>, unless \<open>lgausmom\<close>
  finds a zero integral at the centre: then it returns \<open>-2\<close>. In general, when the
  run of \<open>atFindFocMom\<close> from \<open>(x, y)\<close> comes, after \<open>n < 15\<close> relocations, to a centre
  \<open>(xc, yc)\<close> around which the scan finds no neighbour above the centre, then with
  the \<open>g_filval\<close> of \<open>lgausmom\<close> at the centre (\<open>vc\<close>) and at its eight neighbours the
  result is the flat-peak error exactly when one of the four second differences
  \<open>2*vc - v+ - v-\<close> (along the row, the column and the two diagonals) is below
  \<open>1e-10\<close>, and the success value \<open>n\<close> otherwise. Every run that ends with the
  flat-peak error or with success has come to such a centre. (The sizes are not
  negative, so that \<open>xsz - ncut - 1\<close> and \<open>ysz - ncut - 1\<close> are in the range of \<open>int\<close>.)
\<close>

theorem atFindFocMom_flat_peak:
  assumes "0 \<le> xsz" and "0 \<le> ysz"
  shows "(sigmagen K \<noteq> 0 \<and> wf_image p xsz ysz \<and> flat_image p c \<and> \<not> near_edge K xsz ysz x y
      \<longrightarrow> atFindFocMom K p xsz ysz x y sky ps =
            Return (if returned (lgausmom K p xsz ysz x y sky gm_zero) = Some LG_ZeroIntegral
                    then FF_MomentError else FF_FlatPeak, ps))
   \<and> (\<forall>n sq' xc yc sq1.
          relocated K p xsz ysz sky n (sq_init, x, y) = Some (sq', xc, yc) \<and> int n < FINDERR
          \<and> attempt K p xsz ysz sky sq' xc yc = Return (A_Max sq1)
      \<longrightarrow> (\<exists>vc vxp vxm vyp vym vpp vmm vmp vpm.
            filval_at K p xsz ysz xc yc sky = Some vc
          \<and> filval_at K p xsz ysz (xc + 1) yc sky = Some vxp
          \<and> filval_at K p xsz ysz (xc - 1) yc sky = Some vxm
          \<and> filval_at K p xsz ysz xc (yc + 1) sky = Some vyp
          \<and> filval_at K p xsz ysz xc (yc - 1) sky = Some vym
          \<and> filval_at K p xsz ysz (xc + 1) (yc + 1) sky = Some vpp
          \<and> filval_at K p xsz ysz (xc - 1) (yc - 1) sky = Some vmm
          \<and> filval_at K p xsz ysz (xc - 1) (yc + 1) sky = Some vmp
          \<and> filval_at K p xsz ysz (xc + 1) (yc - 1) sky = Some vpm
          \<and> vxp \<le> vc \<and> vxm \<le> vc \<and> vyp \<le> vc \<and> vym \<le> vc
          \<and> vpp \<le> vc \<and> vmm \<le> vc \<and> vmp \<le> vc \<and> vpm \<le> vc
          \<and> (returned (atFindFocMom K p xsz ysz x y sky ps) = Some FF_FlatPeak \<longleftrightarrow>
                curvature vc vxp vxm < 1 / 10 ^ 10 \<or> curvature vc vyp vym < 1 / 10 ^ 10
                \<or> curvature vc vpp vmm < 1 / 10 ^ 10 \<or> curvature vc vmp vpm < 1 / 10 ^ 10)
          \<and> (returned (atFindFocMom K p xsz ysz x y sky ps) \<noteq> Some FF_FlatPeak
                \<longrightarrow> returned (atFindFocMom K p xsz ysz x y sky ps) = Some (FF_Found (int n)))))
   \<and> (\<forall>e ps'. atFindFocMom K p xsz ysz x y sky ps = Return (e, ps')
          \<and> (e = FF_FlatPeak \<or> (\<exists>r. e = FF_Found r))
      \<longrightarrow> (\<exists>n sq' xc yc sq1.
            relocated K p xsz ysz sky n (sq_init, x, y) = Some (sq', xc, yc) \<and> int n < FINDERR
          \<and> attempt K p xsz ysz sky sq' xc yc = Return (A_Max sq1)))"
proof -
  have A: "atFindFocMom K p xsz ysz x y sky ps =
            Return (if returned (lgausmom K p xsz ysz x y sky gm_zero) = Some LG_ZeroIntegral
                    then FF_MomentError else FF_FlatPeak, ps)"
    if "sigmagen K \<noteq> 0 \<and> wf_image p xsz ysz \<and> flat_image p c \<and> \<not> near_edge K xsz ysz x y"
    using that by (elim conjE) (rule atFindFocMom_flat)
  have B: "\<exists>vc vxp vxm vyp vym vpp vmm vmp vpm.
            filval_at K p xsz ysz xc yc sky = Some vc
          \<and> filval_at K p xsz ysz (xc + 1) yc sky = Some vxp
          \<and> filval_at K p xsz ysz (xc - 1) yc sky = Some vxm
          \<and> filval_at K p xsz ysz xc (yc + 1) sky = Some vyp
          \<and> filval_at K p xsz ysz xc (yc - 1) sky = Some vym
          \<and> filval_at K p xsz ysz (xc + 1) (yc + 1) sky = Some vpp
          \<and> filval_at K p xsz ysz (xc - 1) (yc - 1) sky = Some vmm
          \<and> filval_at K p xsz ysz (xc - 1) (yc + 1) sky = Some vmp
          \<and> filval_at K p xsz ysz (xc + 1) (yc - 1) sky = Some vpm
          \<and> vxp \<le> vc \<and> vxm \<le> vc \<and> vyp \<le> vc \<and> vym \<le> vc
          \<and> vpp \<le> vc \<and> vmm \<le> vc \<and> vmp \<le> vc \<and> vpm \<le> vc
          \<and> (returned (atFindFocMom K p xsz ysz x y sky ps) = Some FF_FlatPeak \<longleftrightarrow>
                curvature vc vxp vxm < 1 / 10 ^ 10 \<or> curvature vc vyp vym < 1 / 10 ^ 10
                \<or> curvature vc vpp vmm < 1 / 10 ^ 10 \<or> curvature vc vmp vpm < 1 / 10 ^ 10)
          \<and> (returned (atFindFocMom K p xsz ysz x y sky ps) \<noteq> Some FF_FlatPeak
                \<longrightarrow> returned (atFindFocMom K p xsz ysz x y sky ps) = Some (FF_Found (int n)))"
    if h: "relocated K p xsz ysz sky n (sq_init, x, y) = Some (sq', xc, yc) \<and> int n < FINDERR
          \<and> attempt K p xsz ysz sky sq' xc yc = Return (A_Max sq1)" for n sq' xc yc sq1
  proof -
    from h have r: "relocated K p xsz ysz sky n (sq_init, x, y) = Some (sq', xc, yc)"
      and n: "int n < FINDERR"
      and a: "attempt K p xsz ysz sky sq' xc yc = Return (A_Max sq1)"
      by simp_all
    have len: "length sq' = 9" using relocated_length [OF r] by (simp add: sq_init_def)
    have lm: "local_max K p xsz ysz sky xc yc sq1" using attempt_Max(1) [OF a len] .
    have "atFindFocMom K p xsz ysz x y sky ps = Return (interpolate sq1 xc yc (int n) ps)"
      using r n a by (rule atFindFocMom_at_max)
    then have ret: "returned (atFindFocMom K p xsz ysz x y sky ps)
        = Some (fst (interpolate sq1 xc yc (int n) ps))"
      by (simp add: returned_def split: prod.splits)
    show ?thesis unfolding ret option.inject using lm by (rule at_max_values)
  qed
  have C: "\<exists>n sq' xc yc sq1.
            relocated K p xsz ysz sky n (sq_init, x, y) = Some (sq', xc, yc) \<and> int n < FINDERR
          \<and> attempt K p xsz ysz sky sq' xc yc = Return (A_Max sq1)"
    if h: "atFindFocMom K p xsz ysz x y sky ps = Return (e, ps')
          \<and> (e = FF_FlatPeak \<or> (\<exists>r. e = FF_Found r))" for e ps'
  proof -
    from h have run: "atFindFocMom K p xsz ysz x y sky ps = Return (e, ps')"
      and e: "e = FF_FlatPeak \<or> (\<exists>r. e = FF_Found r)" by simp_all
    from atFindFocMom_path [OF run] obtain n sq' xc yc where
      r: "relocated K p xsz ysz sky n (sq_init, x, y) = Some (sq', xc, yc)"
      and la: "last_attempt K p xsz ysz sky ps (int n) sq' xc yc (e, ps')"
      by blast
    from e have "int n < FINDERR
        \<and> (\<exists>sq1. attempt K p xsz ysz sky sq' xc yc = Return (A_Max sq1))"
    proof
      assume "e = FF_FlatPeak"
      then show ?thesis using last_attempt_exit(3) [OF la] by blast
    next
      assume "\<exists>r. e = FF_Found r"
      then obtain k where "e = FF_Found k" by blast
      then show ?thesis using last_attempt_exit(2) [OF la, of k] by blast
    qed
    then show ?thesis using r by blast
  qed
  show ?thesis
    apply (intro conjI)
      apply (rule impI, erule A)
     apply (intro allI impI, erule B)
    apply (intro allI impI, erule C)
    done
qed

theorem atFindFocMom_flat_peak_witness:
  "(0::int) \<le> 5 \<and> (0::int) \<le> 7
   \<and> sigmagen kernel_eighth \<noteq> 0 \<and> wf_image flat5 5 5 \<and> flat_image flat5 7
   \<and> \<not> near_edge kernel_eighth 5 5 2 2
   \<and> atFindFocMom kernel_eighth flat5 5 5 2 2 0 gm_zero = Return (FF_FlatPeak, gm_zero)
   \<and> relocated kernel_eighth hole7 7 7 0 0 (sq_init, 3, 3) = Some (sq_init, 3, 3)
   \<and> int 0 < FINDERR
   \<and> attempt kernel_eighth hole7 7 7 0 sq_init 3 3 = Return (A_Max hole7_sq)
   \<and> returned (atFindFocMom kernel_eighth hole7 7 7 3 3 0 gm_zero) = Some (FF_Found (int 0))
   \<and> (\<exists>vc vxp vxm. filval_at kernel_eighth hole7 7 7 3 3 0 = Some vc
        \<and> filval_at kernel_eighth hole7 7 7 (3 + 1) 3 0 = Some vxp
        \<and> filval_at kernel_eighth hole7 7 7 (3 - 1) 3 0 = Some vxm
        \<and> \<not> curvature vc vxp vxm < 1 / 10 ^ 10)
   \<and> (\<exists>n sq' xc yc sq1.
         relocated kernel_eighth hole7 7 7 0 n (sq_init, 3, 3) = Some (sq', xc, yc)
       \<and> int n < FINDERR
       \<and> attempt kernel_eighth hole7 7 7 0 sq' xc yc = Return (A_Max sq1))"
proof -
  have z: "(0::int) \<le> 5" "(0::int) \<le> 7" by simp_all
  have 1: "sigmagen kernel_eighth \<noteq> 0" by (simp add: kernel_eighth_def)
  have 2: "wf_image flat5 5 5" by (simp add: wf_image_def flat5_def)
  have 3: "flat_image flat5 7" by (simp add: flat_image_def flat5_def)
  have 4: "\<not> near_edge kernel_eighth 5 5 2 2" by (simp add: near_edge_def kernel_eighth_def)
  have 5: "atFindFocMom kernel_eighth flat5 5 5 2 2 0 gm_zero = Return (FF_FlatPeak, gm_zero)"
    using atFindFocMom_flat_peak [OF z(1) z(1), of kernel_eighth flat5 7 2 2 0 gm_zero] 1 2 3 4
      flat5_centre
    by simp
  have 6: "relocated kernel_eighth hole7 7 7 0 0 (sq_init, 3, 3) = Some (sq_init, 3, 3)"
    by simp
  have 7: "int 0 < FINDERR" by (simp add: FINDERR_def)
  have 8: "returned (atFindFocMom kernel_eighth hole7 7 7 3 3 0 gm_zero) = Some (FF_Found (int 0))"
    using hole7_centre by (simp add: returned_def)
  note T = atFindFocMom_flat_peak [OF z(2) z(2), of kernel_eighth hole7 0 3 3 0 gm_zero]
  have 9: "\<exists>vc vxp vxm. filval_at kernel_eighth hole7 7 7 3 3 0 = Some vc
        \<and> filval_at kernel_eighth hole7 7 7 (3 + 1) 3 0 = Some vxp
        \<and> filval_at kernel_eighth hole7 7 7 (3 - 1) 3 0 = Some vxm
        \<and> \<not> curvature vc vxp vxm < 1 / 10 ^ 10"
  proof -
    note P = T [THEN conjunct2, THEN conjunct1, rule_format,
        OF conjI [OF 6 conjI [OF 7 hole7_attempt]]]
    from P obtain vc vxp vxm vyp vym vpp vmm vmp vpm where
      f: "filval_at kernel_eighth hole7 7 7 3 3 0 = Some vc"
        "filval_at kernel_eighth hole7 7 7 (3 + 1) 3 0 = Some vxp"
        "filval_at kernel_eighth hole7 7 7 (3 - 1) 3 0 = Some vxm"
      and c: "returned (atFindFocMom kernel_eighth hole7 7 7 3 3 0 gm_zero) = Some FF_FlatPeak
          \<longleftrightarrow> curvature vc vxp vxm < 1 / 10 ^ 10 \<or> curvature vc vyp vym < 1 / 10 ^ 10
                \<or> curvature vc vpp vmm < 1 / 10 ^ 10 \<or> curvature vc vmp vpm < 1 / 10 ^ 10"
      by (elim exE conjE)
    from c have "\<not> curvature vc vxp vxm < 1 / 10 ^ 10" unfolding 8 by simp
    then show ?thesis using f by blast
  qed
  have 10: "\<exists>n sq' xc yc sq1.
         relocated kernel_eighth hole7 7 7 0 n (sq_init, 3, 3) = Some (sq', xc, yc)
       \<and> int n < FINDERR
       \<and> attempt kernel_eighth hole7 7 7 0 sq' xc yc = Return (A_Max sq1)"
    using T [THEN conjunct2, THEN conjunct2, rule_format, OF conjI [OF hole7_centre]]
    by blast
  show ?thesis by (intro conjI) (rule z 1 2 3 4 5 6 7 8 9 10 hole7_attempt)+
qed

text \<open>
  C7 as stated fails: on the 5x5 image of zeros with \<open>sky = 0\<close> the centre \<open>(2, 2)\<close>
  passes the edge test, and the result is the moment-evaluation error.
\<close>

theorem atFindFocMom_flat_counterexample:
  "\<not> near_edge kernel_eighth 5 5 2 2
   \<and> atFindFocMom kernel_eighth zero5 5 5 2 2 0 gm_zero = Return (FF_MomentError, gm_zero)
   \<and> ff_status FF_MomentError = - 2 \<and> ff_status FF_FlatPeak = - 3"
  using zero5_run by (simp add: near_edge_def kernel_eighth_def)
subsection \<open>atSigmaFind: the iteration\<close>





lemma sf_loop_unfold:
  "sf_loop p xsz ysz x y sky i st =
     (if i < SIGITERAT then
        (case sf_body p xsz ysz x y sky st of
           AssertFail \<Rightarrow> AssertFail
         | MemFault \<Rightarrow> MemFault
         | Return (SF_Return c, st1) \<Rightarrow> Return (SF_Returned c, st1)
         | Return (SF_Break, st1) \<Rightarrow> Return (SF_Exited i, st1)
         | Return (SF_Continue, st1) \<Rightarrow> sf_loop p xsz ysz x y sky (Suc i) st1)
      else Return (SF_Exited i, st))"
  by (rule sf_loop.simps)

lemma sf_loop_passes:
  assumes "passes p xsz ysz x y sky n st = Some st1" and "i + n \<le> SIGITERAT"
  shows "sf_loop p xsz ysz x y sky i st = sf_loop p xsz ysz x y sky (i + n) st1"
  using assms
proof (induction n arbitrary: i st)
  case 0
  then show ?case by simp
next
  case (Suc n)
  from Suc.prems(1) obtain st2 where
    b: "sf_body p xsz ysz x y sky st = Return (SF_Continue, st2)"
    and r: "passes p xsz ysz x y sky n st2 = Some st1"
    by (auto split: outcome.splits prod.splits sf_exit.splits)
  have lt: "i < SIGITERAT" using Suc.prems(2) by simp
  have "sf_loop p xsz ysz x y sky i st = sf_loop p xsz ysz x y sky (Suc i) st2"
    by (subst sf_loop_unfold) (simp add: lt b)
  also have "\<dots> = sf_loop p xsz ysz x y sky (Suc i + n) st1"
    using Suc.prems(2) by (intro Suc.IH [OF r]) simp
  finally show ?case by simp
qed











end
